theory Spec2Isabelle
  imports Complex_Main "HOL-Library.Word" "HOL-Library.AList" "HOL-Library.Monad_Syntax"
begin

section \<open>JavaScript values used by the program\<close>

text \<open>
  A JavaScript string is a sequence of UTF-16 code units. String literals of the source
  that are plain ASCII are written with \<open>ascii\<close>; Cyrillic literals are written as lists
  of code units.
\<close>

type_synonym code_unit = "16 word"
type_synonym jsstring = "code_unit list"

definition ascii :: "string \<Rightarrow> jsstring" where
  "ascii s = map of_char s"

text \<open>
  \<open>x || ''\<close> for a nullable string \<open>x\<close>: \<open>null\<close> and the empty string are both falsy,
  so both give the empty string.
\<close>

definition or_empty :: "jsstring option \<Rightarrow> jsstring" where
  "or_empty x = (case x of None \<Rightarrow> [] | Some s \<Rightarrow> s)"

section \<open>Persisted rows (prisma schema, migration \<open>20251118180159_init\<close>)\<close>

datatype StepType = StepStart | StepAction | StepCondition | StepEnd

datatype SpecVersionStatus = Draft | InReview | Approved | Published | Archived

text \<open>
  Table \<open>SpecStep\<close>. \<open>posX\<close> and \<open>posY\<close> are \<open>DOUBLE PRECISION\<close> columns; no code
  modelled here computes with them. \<open>metadata\<close> is an opaque JSON document.
\<close>

record SpecStep =
  step_id :: int
  step_versionId :: int
  stepKey :: jsstring
  step_type :: StepType
  step_title :: jsstring
  step_description :: "jsstring option"
  posX :: real
  posY :: real
  step_metadata :: "jsstring option"

text \<open>Table \<open>SpecStepTransition\<close>.\<close>

record SpecStepTransition =
  tr_id :: int
  tr_versionId :: int
  fromStepId :: int
  toStepId :: int
  tr_label :: "jsstring option"
  tr_condition :: "jsstring option"
  tr_metadata :: "jsstring option"

text \<open>Table \<open>SpecVersion\<close> (the \<open>createdAt\<close> timestamp is left out).\<close>

record SpecVersion =
  ver_id :: int
  ver_specId :: int
  versionNumber :: int
  status :: SpecVersionStatus
  comment :: "jsstring option"
  plainText :: "jsstring option"
  ver_createdById :: "int option"
  basedOnVersionId :: "int option"

text \<open>
  A version as \<open>findUnique\<close> returns it with \<open>include: { steps: true, transitions: true }\<close>:
  the snapshot the comparison works on.
\<close>

record VersionGraph = SpecVersion +
  steps :: "SpecStep list"
  transitions :: "SpecStepTransition list"

section \<open>Version comparison (\<open>GET /api/specs/:id/versions/compare\<close>)\<close>

text \<open>
  A JavaScript \<open>Map\<close> iterates in insertion order, and \<open>set\<close> on a key that is already
  there replaces the value where it stands. That is \<open>AList.update\<close> on an association
  list; \<open>get\<close> is \<open>map_of\<close>, and \<open>has k\<close> is \<open>map_of m k \<noteq> None\<close>.
\<close>

type_synonym ('k, 'v) js_map = "('k \<times> 'v) list"

record StepInfo =
  info_stepKey :: jsstring
  info_title :: jsstring
  info_description :: "jsstring option"
  info_type :: StepType

record StepFields =
  f_title :: jsstring
  f_description :: "jsstring option"
  f_type :: StepType

record StepChange =
  chg_stepKey :: jsstring
  chg_from :: StepFields
  chg_to :: StepFields

record EdgeInfo =
  fromKey :: jsstring
  toKey :: jsstring
  label :: "jsstring option"

record StepsDiff =
  added :: "StepInfo list"
  removed :: "StepInfo list"
  changed :: "StepChange list"

record EdgesDiff =
  edges_added :: "EdgeInfo list"
  edges_removed :: "EdgeInfo list"

record Diff =
  diff_steps :: StepsDiff
  diff_edges :: EdgesDiff

text \<open>\<open>fromStepsByKey\<close> and \<open>toStepsByKey\<close>: \<open>steps.forEach((s) => m.set(s.stepKey, s))\<close>.\<close>

definition stepsByKey :: "SpecStep list \<Rightarrow> (jsstring, SpecStep) js_map" where
  "stepsByKey ss = foldl (\<lambda>m s. AList.update (stepKey s) s m) [] ss"

definition step_info :: "jsstring \<Rightarrow> SpecStep \<Rightarrow> StepInfo" where
  "step_info k s =
     \<lparr>info_stepKey = k, info_title = step_title s,
      info_description = step_description s, info_type = step_type s\<rparr>"

definition step_fields :: "SpecStep \<Rightarrow> StepFields" where
  "step_fields s =
     \<lparr>f_title = step_title s, f_description = step_description s, f_type = step_type s\<rparr>"

text \<open>The test that decides whether a step present on both sides is pushed to \<open>stepsChanged\<close>.\<close>

definition step_differs :: "SpecStep \<Rightarrow> SpecStep \<Rightarrow> bool" where
  "step_differs fromStep toStep \<longleftrightarrow>
     step_title fromStep \<noteq> step_title toStep \<or>
     or_empty (step_description fromStep) \<noteq> or_empty (step_description toStep) \<or>
     step_type fromStep \<noteq> step_type toStep"

text \<open>
  The first loop, over \<open>toStepsByKey.entries()\<close>; it fills \<open>stepsAdded\<close> and
  \<open>stepsChanged\<close>, returned as a pair.
\<close>

fun added_changed_loop ::
  "(jsstring, SpecStep) js_map \<Rightarrow> (jsstring \<times> SpecStep) list \<Rightarrow>
   StepInfo list \<times> StepChange list" where
  "added_changed_loop fromStepsByKey [] = ([], [])"
| "added_changed_loop fromStepsByKey ((k, toStep) # rest) =
     (case added_changed_loop fromStepsByKey rest of (stepsAdded, stepsChanged) \<Rightarrow>
        (case map_of fromStepsByKey k of
           None \<Rightarrow> (step_info k toStep # stepsAdded, stepsChanged)
         | Some fromStep \<Rightarrow>
             if step_differs fromStep toStep
             then (stepsAdded,
                   \<lparr>chg_stepKey = k, chg_from = step_fields fromStep,
                    chg_to = step_fields toStep\<rparr> # stepsChanged)
             else (stepsAdded, stepsChanged)))"

text \<open>The second loop, over \<open>fromStepsByKey.entries()\<close>; it fills \<open>stepsRemoved\<close>.\<close>

fun removed_loop ::
  "(jsstring, SpecStep) js_map \<Rightarrow> (jsstring \<times> SpecStep) list \<Rightarrow> StepInfo list" where
  "removed_loop toStepsByKey [] = []"
| "removed_loop toStepsByKey ((k, fromStep) # rest) =
     (if map_of toStepsByKey k = None
      then step_info k fromStep # removed_loop toStepsByKey rest
      else removed_loop toStepsByKey rest)"

text \<open>\<open>fromIdToKey\<close> and \<open>toIdToKey\<close>: \<open>steps.forEach((s) => m.set(s.id, s.stepKey))\<close>.\<close>

definition idToKey :: "SpecStep list \<Rightarrow> (int, jsstring) js_map" where
  "idToKey ss = foldl (\<lambda>m s. AList.update (step_id s) (stepKey s) m) [] ss"

text \<open>The template literal \<open>`${fromKey}->${toKey}|${label || ''}`\<close>.\<close>

definition buildEdgeKey :: "jsstring \<Rightarrow> jsstring \<Rightarrow> jsstring option \<Rightarrow> jsstring" where
  "buildEdgeKey fk tk l = fk @ ascii ''->'' @ tk @ ascii ''|'' @ or_empty l"

text \<open>
  One round of \<open>transitions.forEach\<close>. \<open>!fromKey || !toKey\<close> holds when a lookup gave
  \<open>undefined\<close> and also when the key found is the empty string; the transition is then
  skipped.
\<close>

definition edge_step ::
  "(int, jsstring) js_map \<Rightarrow> (jsstring, EdgeInfo) js_map \<Rightarrow> SpecStepTransition \<Rightarrow>
   (jsstring, EdgeInfo) js_map" where
  "edge_step idmap m tr =
     (case (map_of idmap (fromStepId tr), map_of idmap (toStepId tr)) of
        (Some fk, Some tk) \<Rightarrow>
          if fk = [] \<or> tk = [] then m
          else AList.update (buildEdgeKey fk tk (tr_label tr))
                 \<lparr>fromKey = fk, toKey = tk, label = tr_label tr\<rparr> m
      | _ \<Rightarrow> m)"

text \<open>\<open>fromEdgesSet\<close> and \<open>toEdgesSet\<close>.\<close>

definition edgesSet ::
  "(int, jsstring) js_map \<Rightarrow> SpecStepTransition list \<Rightarrow> (jsstring, EdgeInfo) js_map" where
  "edgesSet idmap trs = foldl (edge_step idmap) [] trs"

text \<open>
  Both edge loops have the same shape: push the entries of one map whose key the other
  map does not have.
\<close>

fun edges_missing_in ::
  "(jsstring, EdgeInfo) js_map \<Rightarrow> (jsstring \<times> EdgeInfo) list \<Rightarrow> EdgeInfo list" where
  "edges_missing_in other [] = []"
| "edges_missing_in other ((key, edge) # rest) =
     (if map_of other key = None
      then edge # edges_missing_in other rest
      else edges_missing_in other rest)"

text \<open>The comparison of two loaded versions: the \<open>steps\<close> and \<open>edges\<close> of the response.\<close>

definition diff :: "VersionGraph \<Rightarrow> VersionGraph \<Rightarrow> Diff" where
  "diff fromVersion toVersion =
     (let fromStepsByKey = stepsByKey (steps fromVersion);
          toStepsByKey = stepsByKey (steps toVersion);
          ac = added_changed_loop fromStepsByKey toStepsByKey;
          stepsRemoved = removed_loop toStepsByKey fromStepsByKey;
          fromEdgesSet = edgesSet (idToKey (steps fromVersion)) (transitions fromVersion);
          toEdgesSet = edgesSet (idToKey (steps toVersion)) (transitions toVersion);
          edgesAdded = edges_missing_in fromEdgesSet toEdgesSet;
          edgesRemoved = edges_missing_in toEdgesSet fromEdgesSet
      in \<lparr>diff_steps = \<lparr>added = fst ac, removed = stepsRemoved, changed = snd ac\<rparr>,
          diff_edges = \<lparr>edges_added = edgesAdded, edges_removed = edgesRemoved\<rparr>\<rparr>)"

subsection \<open>Vocabulary for stating what the comparison reports\<close>

text \<open>
  The step a snapshot holds under a key: the last one in the list, should a key repeat
  (a later \<open>Map.set\<close> replaces the earlier value).
\<close>

definition step_with_key :: "jsstring \<Rightarrow> SpecStep list \<Rightarrow> SpecStep option" where
  "step_with_key k ss = find (\<lambda>s. stepKey s = k) (rev ss)"




text \<open>The empty comparison result.\<close>

definition empty_diff :: Diff where
  "empty_diff =
     \<lparr>diff_steps = \<lparr>added = [], removed = [], changed = []\<rparr>,
      diff_edges = \<lparr>edges_added = [], edges_removed = []\<rparr>\<rparr>"



subsection \<open>Sample snapshots\<close>

text \<open>
  Rows and snapshots for the worked examples: the snapshot pair of the specification's
  example (one start step; the same step moved, an end step and an edge between them),
  a variant with a labelled edge, and a pair whose first step has the empty key.
\<close>

definition mk_step :: "int \<Rightarrow> int \<Rightarrow> jsstring \<Rightarrow> StepType \<Rightarrow> jsstring \<Rightarrow> SpecStep" where
  "mk_step i v k ty ti =
     \<lparr>step_id = i, step_versionId = v, stepKey = k, step_type = ty, step_title = ti,
      step_description = None, posX = 0, posY = 0, step_metadata = None\<rparr>"

definition mk_transition :: "int \<Rightarrow> int \<Rightarrow> int \<Rightarrow> int \<Rightarrow> jsstring option \<Rightarrow> SpecStepTransition" where
  "mk_transition i v f t l =
     \<lparr>tr_id = i, tr_versionId = v, fromStepId = f, toStepId = t, tr_label = l,
      tr_condition = None, tr_metadata = None\<rparr>"

definition mk_version :: "int \<Rightarrow> SpecStep list \<Rightarrow> SpecStepTransition list \<Rightarrow> VersionGraph" where
  "mk_version i ss ts =
     \<lparr>ver_id = i, ver_specId = 1, versionNumber = i, status = Draft, comment = None,
      plainText = None, ver_createdById = None, basedOnVersionId = None,
      steps = ss, transitions = ts\<rparr>"

definition snapshot_A :: VersionGraph where
  "snapshot_A = mk_version 1 [mk_step 1 1 (ascii ''1'') StepStart (ascii ''Start'')] []"

definition snapshot_B :: VersionGraph where
  "snapshot_B = mk_version 2
     [(mk_step 2 2 (ascii ''1'') StepStart (ascii ''Start''))\<lparr>posX := 40, posY := 25\<rparr>,
      mk_step 3 2 (ascii ''2'') StepEnd (ascii ''End'')]
     [mk_transition 1 2 2 3 None]"

definition snapshot_B' :: VersionGraph where
  "snapshot_B' = mk_version 3
     [mk_step 4 3 (ascii ''1'') StepStart (ascii ''Start''),
      mk_step 5 3 (ascii ''2'') StepEnd (ascii ''End'')]
     [mk_transition 2 3 4 5 (Some (ascii ''yes''))]"

definition snapshot_E :: VersionGraph where
  "snapshot_E = mk_version 4
     [mk_step 6 4 [] StepStart (ascii ''Start''),
      mk_step 7 4 (ascii ''2'') StepEnd (ascii ''End'')]
     []"

definition snapshot_E' :: VersionGraph where
  "snapshot_E' = mk_version 5
     [mk_step 8 5 [] StepStart (ascii ''Start''),
      mk_step 9 5 (ascii ''2'') StepEnd (ascii ''End'')]
     [mk_transition 3 5 8 9 None]"

section \<open>The store and the routes that write it\<close>

subsection \<open>Tables\<close>














text \<open>The decimal text of an integer, as a template literal prints a whole number.\<close>

function digits10 :: "nat \<Rightarrow> jsstring" where
  "digits10 n = (if n < 10 then [of_nat (48 + n)]
                 else digits10 (n div 10) @ [of_nat (48 + n mod 10)])"
  by pat_completeness auto
termination
  by (relation "measure id") auto

declare digits10.simps [simp del]


subsection \<open>\<open>POST /api/specs\<close>\<close>




subsection \<open>\<open>POST /api/specs/:id/versions/:versionNumber/fork\<close>\<close>







subsection \<open>The compare route\<close>



subsection \<open>A sample database\<close>


subsection \<open>Vocabulary for stating what a fork keeps\<close>




text \<open>
  The rows a fork writes, in closed form: each step with a new id and the new version
  id, each transition with a new id, the new version id and its two step ids sent
  through \<open>stepIdMap\<close>.
\<close>

fun copies :: "int \<Rightarrow> int \<Rightarrow> SpecStep list \<Rightarrow> SpecStep list" where
  "copies vid start [] = []"
| "copies vid start (s # ss) =
     s\<lparr>step_id := start, step_versionId := vid\<rparr> # copies vid (start + 1) ss"

definition mapped_id :: "(int, int) js_map \<Rightarrow> int \<Rightarrow> int" where
  "mapped_id m i = (case map_of m i of None \<Rightarrow> i | Some j \<Rightarrow> j)"

fun tcopies :: "int \<Rightarrow> (int, int) js_map \<Rightarrow> int \<Rightarrow> SpecStepTransition list \<Rightarrow> SpecStepTransition list" where
  "tcopies vid m start [] = []"
| "tcopies vid m start (tr # trs) =
     tr\<lparr>tr_id := start, tr_versionId := vid, fromStepId := mapped_id m (fromStepId tr),
        toStepId := mapped_id m (toStepId tr)\<rparr> # tcopies vid m (start + 1) trs"

subsection \<open>Sample databases for the fork\<close>








section \<open>The Excel import (\<open>handleExcelFileChange\<close> in \<open>App.jsx\<close>)\<close>

subsection \<open>Strings and cells\<close>

text \<open>
  \<open>toLowerCase\<close> and the case folding of a regular expression with the \<open>i\<close> flag are
  built into the language; the functions below take them as the parameters \<open>lower\<close> (on
  strings) and \<open>canon\<close> (on code units).

  White space as \<open>trim\<close> and \<open>\s\<close> see it (WhiteSpace and LineTerminator of ECMAScript),
  and the digits of \<open>\d\<close>.
\<close>

definition is_ws :: "code_unit \<Rightarrow> bool" where
  "is_ws c \<longleftrightarrow>
     c \<in> set [0x0009, 0x000A, 0x000B, 0x000C, 0x000D, 0x0020, 0x00A0, 0x1680, 0x2028, 0x2029,
              0x202F, 0x205F, 0x3000, 0xFEFF] \<or> (0x2000 \<le> c \<and> c \<le> 0x200A)"

definition is_digit :: "code_unit \<Rightarrow> bool" where
  "is_digit c \<longleftrightarrow> 0x30 \<le> c \<and> c \<le> 0x39"

definition trim :: "jsstring \<Rightarrow> jsstring" where
  "trim s = rev (dropWhile is_ws (rev (dropWhile is_ws s)))"

fun startsWith :: "jsstring \<Rightarrow> jsstring \<Rightarrow> bool" where
  "startsWith s [] = True"
| "startsWith [] (p # ps) = False"
| "startsWith (c # cs) (p # ps) = (c = p \<and> startsWith cs ps)"

fun str_includes :: "jsstring \<Rightarrow> jsstring \<Rightarrow> bool" where
  "str_includes [] sub = (sub = [])"
| "str_includes (c # cs) sub = (startsWith (c # cs) sub \<or> str_includes cs sub)"






subsection \<open>Columns and rows\<close>

datatype import_error =
  EmptySheet | NoHeaderFound | MissingRequiredColumns | NoStepsFound | TypeError











text \<open>
  The objects pushed to \<open>steps\<close>; their fields \<open>key\<close>, \<open>title\<close> and \<open>description\<close>
  are \<open>ex_key\<close>, \<open>ex_title\<close> and \<open>ex_description\<close> here.
\<close>

record ExcelStep =
  ex_key :: jsstring
  ex_title :: jsstring
  ex_description :: jsstring
  originalIndex :: nat
  rawDescr :: jsstring
  rawCrit :: jsstring
  rawDevNote :: jsstring



definition shag :: jsstring where
  "shag = [0x0428, 0x0430, 0x0433, 0x0020]"







text \<open>
  Lower case and upper case on ASCII and basic Cyrillic letters, where they agree with
  \<open>toLowerCase\<close> and with the case folding of regular expressions; for the examples.
\<close>

definition lower_unit :: "code_unit \<Rightarrow> code_unit" where
  "lower_unit c =
     (if 0x41 \<le> c \<and> c \<le> 0x5A then c + 0x20
      else if 0x0410 \<le> c \<and> c \<le> 0x042F then c + 0x20
      else if 0x0400 \<le> c \<and> c \<le> 0x040F then c + 0x50
      else c)"

definition upper_unit :: "code_unit \<Rightarrow> code_unit" where
  "upper_unit c =
     (if 0x61 \<le> c \<and> c \<le> 0x7A then c - 0x20
      else if 0x0430 \<le> c \<and> c \<le> 0x044F then c - 0x20
      else if 0x0450 \<le> c \<and> c \<le> 0x045F then c - 0x50
      else c)"

definition basic_toLowerCase :: "jsstring \<Rightarrow> jsstring" where
  "basic_toLowerCase s = map lower_unit s"

subsection \<open>Sample tables\<close>




subsection \<open>Transitions in free text (\<open>extractTransitionsFromText\<close>)\<close>

text \<open>The objects pushed to \<open>transitions\<close>; the field \<open>label\<close> is \<open>tt_label\<close> here.\<close>

record TextTransition =
  targetKey :: jsstring
  tt_label :: jsstring

text \<open>
  The regular expression, \<open>perehod k shag[au]\s+(\d+)\<close> in Russian letters, with the
  flags \<open>g\<close> and \<open>i\<close>. \<open>match_literal\<close> reads the literal part up to case, and
  \<open>match_at\<close> tells whether the expression matches at the start of a text: the literal,
  one of the two letters, the longest run of white space, the longest run of digits,
  both not empty. It gives the length of the match and the digits.
\<close>

definition perehod_k_shag :: jsstring where
  "perehod_k_shag = [0x043F, 0x0435, 0x0440, 0x0435, 0x0445, 0x043E, 0x0434, 0x0020, 0x043A,
                     0x0020, 0x0448, 0x0430, 0x0433]"

fun match_literal :: "(code_unit \<Rightarrow> code_unit) \<Rightarrow> jsstring \<Rightarrow> jsstring \<Rightarrow> jsstring option" where
  "match_literal canon [] t = Some t"
| "match_literal canon (p # ps) [] = None"
| "match_literal canon (p # ps) (c # cs) =
     (if canon c = canon p then match_literal canon ps cs else None)"

definition match_at :: "(code_unit \<Rightarrow> code_unit) \<Rightarrow> jsstring \<Rightarrow> (nat \<times> jsstring) option" where
  "match_at canon t =
     (case match_literal canon perehod_k_shag t of
        None \<Rightarrow> None
      | Some r1 \<Rightarrow>
          (case r1 of
             [] \<Rightarrow> None
           | c # r2 \<Rightarrow>
               if canon c = canon 0x0430 \<or> canon c = canon 0x0443
               then (let ws = takeWhile is_ws r2;
                         ds = takeWhile is_digit (dropWhile is_ws r2)
                     in if ws = [] \<or> ds = [] then None
                        else Some (length perehod_k_shag + 1 + length ws + length ds, ds))
               else None))"

text \<open>The class \<open>[\s\.\,\;\:\-]\<close> and the label cut from the text before a match.\<close>

definition is_tail :: "code_unit \<Rightarrow> bool" where
  "is_tail c \<longleftrightarrow> is_ws c \<or> c \<in> set (ascii ''.,;:-'')"

definition context_label :: "jsstring \<Rightarrow> nat \<Rightarrow> jsstring" where
  "context_label text index =
     (let contextStart = index - 80;
          context1 = trim (take (index - contextStart) (drop contextStart text));
          context2 = trim (rev (dropWhile is_tail (rev context1)))
      in if 60 < length context2
         then [0x2026] @ drop (length context2 - 60) context2
         else context2)"

text \<open>
  The loop \<open>while ((match = regex.exec(text)) !== null)\<close>: \<open>pos\<close> is the place in \<open>text\<close>
  the search has reached and the last argument the text from there on. A search
  that fails at \<open>pos\<close> goes on one further; a match moves \<open>lastIndex\<close> behind itself.
\<close>

fun exec_loop ::
  "(code_unit \<Rightarrow> code_unit) \<Rightarrow> jsstring \<Rightarrow> nat \<Rightarrow> jsstring \<Rightarrow> TextTransition list" where
  "exec_loop canon text pos [] = []"
| "exec_loop canon text pos (c # cs) =
     (case match_at canon (c # cs) of
        None \<Rightarrow> exec_loop canon text (Suc pos) cs
      | Some (len, digits) \<Rightarrow>
          \<lparr>targetKey = digits, tt_label = context_label text pos\<rparr> #
          exec_loop canon text (pos + len) (drop (len - 1) cs))"

definition extractTransitionsFromText ::
  "(code_unit \<Rightarrow> code_unit) \<Rightarrow> jsstring \<Rightarrow> TextTransition list" where
  "extractTransitionsFromText canon rawText =
     (if rawText = [] then [] else exec_loop canon rawText 0 rawText)"

subsection \<open>Nodes and explicit edges\<close>

text \<open>
  A node of the graph: \<open>id\<close>, \<open>position\<close> and \<open>data\<close> (\<open>type\<close> is always \<open>block\<close> and
  \<open>diffStatus\<close> always \<open>null\<close>). An edge: \<open>id\<close>, \<open>source\<close>, \<open>target\<close> and \<open>label\<close>, which is
  absent or \<open>undefined\<close> unless a label was found.
\<close>

record Node =
  node_id :: jsstring
  node_x :: int
  node_y :: int
  node_title :: jsstring
  node_description :: jsstring
  realType :: StepType

record Edge =
  edge_id :: jsstring
  source :: jsstring
  target :: jsstring
  edge_label :: "jsstring option"

text \<open>The words \<open>proverka\<close> and \<open>proveryaetsya\<close> (check, is checked) mark a condition.\<close>

definition proverka :: jsstring where
  "proverka = [0x043F, 0x0440, 0x043E, 0x0432, 0x0435, 0x0440, 0x043A, 0x0430]"

definition proveryaetsya :: jsstring where
  "proveryaetsya = [0x043F, 0x0440, 0x043E, 0x0432, 0x0435, 0x0440, 0x044F, 0x0435, 0x0442,
                    0x0441, 0x044F]"

definition step_node :: "(jsstring \<Rightarrow> jsstring) \<Rightarrow> nat \<Rightarrow> nat \<Rightarrow> ExcelStep \<Rightarrow> Node" where
  "step_node lower n idx step =
     \<lparr>node_id = ex_key step, node_x = 100 + int idx * 60, node_y = 80 + int idx * 30,
      node_title = ex_title step, node_description = ex_description step,
      realType =
        (if idx = 0 then StepStart
         else if idx = n - 1 then StepEnd
         else if str_includes (lower (ex_title step)) proverka \<or>
                 str_includes (lower (ex_title step)) proveryaetsya
              then StepCondition else StepAction)\<rparr>"

definition stepNodes :: "(jsstring \<Rightarrow> jsstring) \<Rightarrow> ExcelStep list \<Rightarrow> Node list" where
  "stepNodes lower stepsSorted =
     map (\<lambda>(idx, step). step_node lower (length stepsSorted) idx step)
       (enumerate 0 stepsSorted)"

definition textForParsing :: "ExcelStep \<Rightarrow> jsstring" where
  "textForParsing step =
     (if rawDescr step \<noteq> [] then rawDescr step @ ascii [CHR 0x0A] else []) @
     (if rawCrit step \<noteq> [] then rawCrit step @ ascii [CHR 0x0A] else []) @
     (if rawDevNote step \<noteq> [] then rawDevNote step else [])"

record ExplicitEdge =
  e_from :: jsstring
  e_to :: jsstring
  e_label :: jsstring

text \<open>The node made up for a target that is not a node yet.\<close>

definition placeholder :: "jsstring \<Rightarrow> nat \<Rightarrow> Node" where
  "placeholder tk n =
     \<lparr>node_id = tk, node_x = 400, node_y = 80 + int n * 30, node_title = shag @ tk,
      node_description = [], realType = StepAction\<rparr>"

text \<open>
  The loop over the transitions of one step with key \<open>fk\<close> (\<open>fromKey\<close>). Its state:
  \<open>newNodes\<close>, \<open>nodeIds\<close>,
  \<open>explicitEdges\<close> and \<open>arr\<close>, the array of \<open>outgoingByFrom\<close> for the step's key, as
  pairs of target and label.
\<close>

fun transitions_loop ::
  "jsstring \<Rightarrow> TextTransition list \<Rightarrow>
   Node list \<times> jsstring set \<times> ExplicitEdge list \<times> (jsstring \<times> jsstring) list \<Rightarrow>
   Node list \<times> jsstring set \<times> ExplicitEdge list \<times> (jsstring \<times> jsstring) list" where
  "transitions_loop fk [] st = st"
| "transitions_loop fk (tr # rest) (newNodes, nodeIds, explicitEdges, arr) =
     (if targetKey tr = [] then transitions_loop fk rest (newNodes, nodeIds, explicitEdges, arr)
      else
        let newNodes' = (if targetKey tr \<in> nodeIds then newNodes
                         else newNodes @ [placeholder (targetKey tr) (length newNodes)]);
            nodeIds' = insert (targetKey tr) nodeIds
        in if list_ex (\<lambda>e. fst e = targetKey tr) arr
           then transitions_loop fk rest (newNodes', nodeIds', explicitEdges, arr)
           else transitions_loop fk rest
                  (newNodes', nodeIds',
                   explicitEdges @ [\<lparr>e_from = fk, e_to = targetKey tr, e_label = tt_label tr\<rparr>],
                   arr @ [(targetKey tr, tt_label tr)]))"

text \<open>The loop over \<open>stepsSorted\<close>, with \<open>outgoingByFrom\<close> as a map.\<close>

fun steps_loop ::
  "(code_unit \<Rightarrow> code_unit) \<Rightarrow> ExcelStep list \<Rightarrow>
   Node list \<times> jsstring set \<times> ExplicitEdge list \<times> (jsstring \<rightharpoonup> (jsstring \<times> jsstring) list) \<Rightarrow>
   Node list \<times> jsstring set \<times> ExplicitEdge list \<times> (jsstring \<rightharpoonup> (jsstring \<times> jsstring) list)" where
  "steps_loop canon [] st = st"
| "steps_loop canon (step # rest) (newNodes, nodeIds, explicitEdges, outgoingByFrom) =
     (let transitions = extractTransitionsFromText canon (textForParsing step)
      in if transitions = [] then
           steps_loop canon rest (newNodes, nodeIds, explicitEdges, outgoingByFrom)
         else
           (case transitions_loop (ex_key step) transitions
                   (newNodes, nodeIds, explicitEdges,
                    case outgoingByFrom (ex_key step) of None \<Rightarrow> [] | Some arr \<Rightarrow> arr) of
              (newNodes', nodeIds', explicitEdges', arr') \<Rightarrow>
                steps_loop canon rest
                  (newNodes', nodeIds', explicitEdges',
                   outgoingByFrom(ex_key step \<mapsto> arr'))))"

subsection \<open>Edges\<close>

text \<open>\<open>`${from}->${to}`\<close>, the key in \<open>edgeKeySet\<close> and the id of an edge without label.\<close>

definition edge_key :: "jsstring \<Rightarrow> jsstring \<Rightarrow> jsstring" where
  "edge_key f t = f @ ascii ''->'' @ t"

definition explicit_edge :: "nat \<Rightarrow> ExplicitEdge \<Rightarrow> Edge" where
  "explicit_edge idx e =
     \<lparr>edge_id = edge_key (e_from e) (e_to e) @ ascii ''-'' @ digits10 idx,
      source = e_from e, target = e_to e,
      edge_label = (if e_label e = [] then None else Some (e_label e))\<rparr>"

definition chain_edge :: "ExcelStep \<Rightarrow> ExcelStep \<Rightarrow> Edge" where
  "chain_edge a b =
     \<lparr>edge_id = edge_key (ex_key a) (ex_key b), source = ex_key a, target = ex_key b,
      edge_label = None\<rparr>"

text \<open>The loop of 9.2, \<open>for (let i = 0; i < stepsSorted.length - 1; i++)\<close>.\<close>

fun chain_loop :: "ExcelStep list \<Rightarrow> Edge list" where
  "chain_loop (a # b # rest) = chain_edge a b # chain_loop (b # rest)"
| "chain_loop rest = []"

text \<open>The loop of 9.3; its state is \<open>newEdges\<close> and \<open>edgeKeySet\<close>.\<close>

fun fallback_loop ::
  "(jsstring \<rightharpoonup> (jsstring \<times> jsstring) list) \<Rightarrow> ExcelStep list \<Rightarrow>
   Edge list \<times> jsstring set \<Rightarrow> Edge list \<times> jsstring set" where
  "fallback_loop outgoingByFrom (a # b # rest) (newEdges, edgeKeySet) =
     (if outgoingByFrom (ex_key a) = None \<and> edge_key (ex_key a) (ex_key b) \<notin> edgeKeySet
      then fallback_loop outgoingByFrom (b # rest)
             (newEdges @ [chain_edge a b], insert (edge_key (ex_key a) (ex_key b)) edgeKeySet)
      else fallback_loop outgoingByFrom (b # rest) (newEdges, edgeKeySet))"
| "fallback_loop outgoingByFrom rest st = st"

text \<open>
  From \<open>stepsSorted\<close> to the nodes and edges handed to \<open>setNodes\<close> and \<open>setEdges\<close> (steps
  8 to 9.3 of the source).
\<close>

definition importGraph ::
  "(code_unit \<Rightarrow> code_unit) \<Rightarrow> (jsstring \<Rightarrow> jsstring) \<Rightarrow> ExcelStep list \<Rightarrow> Node list \<times> Edge list" where
  "importGraph canon lower stepsSorted =
     (let nodes0 = stepNodes lower stepsSorted in
      case steps_loop canon stepsSorted (nodes0, set (map node_id nodes0), [], Map.empty) of
        (newNodes, nodeIds, explicitEdges, outgoingByFrom) \<Rightarrow>
          (let explicit = map (\<lambda>(idx, e). explicit_edge idx e) (enumerate 0 explicitEdges);
               edgeKeySet = set (map (\<lambda>e. edge_key (e_from e) (e_to e)) explicitEdges)
           in (newNodes,
               if explicitEdges = [] then explicit @ chain_loop stepsSorted
               else fst (fallback_loop outgoingByFrom stepsSorted (explicit, edgeKeySet)))))"

subsection \<open>Vocabulary for stating what the import builds\<close>

text \<open>
  All transitions found in the texts of the steps, in the order of the steps and of the
  matches within a text, each with the key of its step; and the first of each pair of
  source and target among them.
\<close>

definition all_matches :: "(code_unit \<Rightarrow> code_unit) \<Rightarrow> ExcelStep list \<Rightarrow> ExplicitEdge list" where
  "all_matches canon stepsSorted =
     concat (map (\<lambda>s. map (\<lambda>t. \<lparr>e_from = ex_key s, e_to = targetKey t, e_label = tt_label t\<rparr>)
                        (extractTransitionsFromText canon (textForParsing s)))
               stepsSorted)"

definition e_pair :: "ExplicitEdge \<Rightarrow> jsstring \<times> jsstring" where
  "e_pair e = (e_from e, e_to e)"

fun first_per_pair :: "ExplicitEdge list \<Rightarrow> ExplicitEdge list" where
  "first_per_pair [] = []"
| "first_per_pair (e # es) = e # first_per_pair (filter (\<lambda>x. e_pair x \<noteq> e_pair e) es)"

text \<open>An edge as source, target and label.\<close>

definition edge_triple :: "Edge \<Rightarrow> jsstring \<times> jsstring \<times> jsstring option" where
  "edge_triple e = (source e, target e, edge_label e)"

definition basic_canonicalize :: "code_unit \<Rightarrow> code_unit" where
  "basic_canonicalize = upper_unit"

subsection \<open>Vocabulary for the proofs about the import\<close>

text \<open>
  \<open>text_edge\<close>: the explicit edge of a match. \<open>placeholders\<close>: the nodes made up for a
  list of targets, the first standing at place \<open>n\<close> of the node list. \<open>outgoing_of\<close>: the
  array \<open>outgoingByFrom\<close> holds for a key, read off the explicit edges, and \<open>arr_of\<close>,
  \<open>outgoingByFrom.get(k) || []\<close>. \<open>keep_new\<close>: explicit edges so far, followed by the
  first of each further pair among new matches. \<open>gt_sign\<close>: the character \<open>>\<close>.
\<close>

definition text_edge :: "jsstring \<Rightarrow> TextTransition \<Rightarrow> ExplicitEdge" where
  "text_edge fk t = \<lparr>e_from = fk, e_to = targetKey t, e_label = tt_label t\<rparr>"

definition placeholders :: "nat \<Rightarrow> jsstring list \<Rightarrow> Node list" where
  "placeholders n ts = map (\<lambda>(i, t). placeholder t i) (enumerate n ts)"

definition outgoing_of :: "jsstring \<Rightarrow> ExplicitEdge list \<Rightarrow> (jsstring \<times> jsstring) list" where
  "outgoing_of k es = map (\<lambda>e. (e_to e, e_label e)) (filter (\<lambda>e. e_from e = k) es)"

definition arr_of :: "(jsstring \<rightharpoonup> (jsstring \<times> jsstring) list) \<Rightarrow> jsstring \<Rightarrow> (jsstring \<times> jsstring) list" where
  "arr_of out k = (case out k of None \<Rightarrow> [] | Some arr \<Rightarrow> arr)"

definition keep_new :: "ExplicitEdge list \<Rightarrow> ExplicitEdge list \<Rightarrow> ExplicitEdge list" where
  "keep_new es ms = es @ first_per_pair (filter (\<lambda>m. e_pair m \<notin> e_pair ` set es) ms)"

definition gt_sign :: code_unit where
  "gt_sign = of_char CHR ''>''"

subsection \<open>Sample step lists\<close>

text \<open>
  \<open>goto_step n\<close> is the phrase \<open>perehod k shagu n\<close>. \<open>plain_steps\<close>: three steps
  without text. \<open>branch_steps\<close>: the same, the first with a text that names step 99
  twice, the second time in capitals. \<open>repeated_key_steps\<close>: two rows numbered 1, the
  first with a transition to step 3, then rows 2 and 3.
\<close>

definition mk_excel :: "jsstring \<Rightarrow> jsstring \<Rightarrow> jsstring \<Rightarrow> nat \<Rightarrow> ExcelStep" where
  "mk_excel k ti d i =
     \<lparr>ex_key = k, ex_title = ti, ex_description = d, originalIndex = i,
      rawDescr = d, rawCrit = [], rawDevNote = []\<rparr>"

definition goto_step :: "jsstring \<Rightarrow> jsstring" where
  "goto_step n = perehod_k_shag @ [0x0443, 0x0020] @ n"

definition plain_steps :: "ExcelStep list" where
  "plain_steps = [mk_excel (ascii ''1'') (ascii ''Start'') [] 1,
                  mk_excel (ascii ''2'') (ascii ''Work'') [] 2,
                  mk_excel (ascii ''3'') (ascii ''End'') [] 3]"

definition branch_text :: jsstring where
  "branch_text = ascii ''ok - '' @ goto_step (ascii ''99'') @ ascii ''; no - '' @
                 map upper_unit (goto_step (ascii ''99''))"

definition branch_steps :: "ExcelStep list" where
  "branch_steps =
     [mk_excel (ascii ''1'') (ascii ''Start'') branch_text 1,
      mk_excel (ascii ''2'') (ascii ''Work'') [] 2,
      mk_excel (ascii ''3'') (ascii ''End'') [] 3]"

definition repeated_key_steps :: "ExcelStep list" where
  "repeated_key_steps =
     [mk_excel (ascii ''1'') (ascii ''Start'') (goto_step (ascii ''3'')) 1,
      mk_excel (ascii ''1'') (ascii ''Again'') [] 2,
      mk_excel (ascii ''2'') (ascii ''Work'') [] 3,
      mk_excel (ascii ''3'') (ascii ''End'') [] 4]"

section \<open>Properties of the version comparison\<close>

lemmas sample_defs = snapshot_A_def snapshot_B_def snapshot_B'_def snapshot_E_def snapshot_E'_def
  mk_version_def mk_step_def mk_transition_def

lemmas diff_eval = diff_def Let_def stepsByKey_def idToKey_def edgesSet_def edge_step_def
  buildEdgeKey_def step_info_def step_fields_def step_differs_def or_empty_def ascii_def

subsection \<open>JavaScript maps as association lists\<close>

lemma distinct_foldl_update:
  "distinct (map fst m) \<Longrightarrow>
   distinct (map fst (foldl (\<lambda>m s. AList.update (f s) (g s) m) m xs))"
  by (induction xs arbitrary: m) (simp_all add: distinct_update)

lemma map_of_foldl_update:
  "map_of (foldl (\<lambda>m s. AList.update (f s) (g s) m) [] xs) i =
     map_option g (find (\<lambda>s. f s = i) (rev xs))"
  by (induction xs rule: rev_induct) (simp_all add: update_conv')


lemma distinct_stepsByKey: "distinct (map fst (stepsByKey ss))"
  unfolding stepsByKey_def by (rule distinct_foldl_update) simp

lemma map_of_stepsByKey: "map_of (stepsByKey ss) k = step_with_key k ss"
  unfolding stepsByKey_def step_with_key_def
  by (simp add: map_of_foldl_update option.map_ident)


subsection \<open>The step loops\<close>

lemma added_changed_loop_self:
  "distinct (map fst m) \<Longrightarrow> set rest \<subseteq> set m \<Longrightarrow> added_changed_loop m rest = ([], [])"
  by (induction rest) (auto simp: step_differs_def)

lemma removed_loop_self: "set rest \<subseteq> set m \<Longrightarrow> removed_loop m rest = []"
  by (induction rest) (force simp: map_of_eq_None_iff)+

lemma edges_missing_in_self: "set rest \<subseteq> set m \<Longrightarrow> edges_missing_in m rest = []"
  by (induction rest) (force simp: map_of_eq_None_iff)+

lemma fst_added_changed_loop: "fst (added_changed_loop m rest) = removed_loop m rest"
  by (induction rest) (auto split: prod.splits option.splits)

lemma changed_keys:
  "k \<in> chg_stepKey ` set (snd (added_changed_loop fm rest)) \<longleftrightarrow>
     (\<exists>t f. (k, t) \<in> set rest \<and> map_of fm k = Some f \<and> step_differs f t)"
proof (induction rest)
  case Nil
  then show ?case by simp
next
  case (Cons p rest)
  obtain k' t' where p: "p = (k', t')" by (cases p)
  obtain a c where ac: "added_changed_loop fm rest = (a, c)"
    by (cases "added_changed_loop fm rest")
  from Cons ac have IH: "k \<in> chg_stepKey ` set c \<longleftrightarrow>
     (\<exists>t f. (k, t) \<in> set rest \<and> map_of fm k = Some f \<and> step_differs f t)" by simp
  show ?case
  proof (cases "map_of fm k'")
    case None
    then show ?thesis using IH p ac by auto
  next
    case (Some f')
    then show ?thesis using IH p ac by (cases "step_differs f' t'") auto
  qed
qed

lemma changed_iff:
  assumes "step_with_key k (steps A) = Some f" and "step_with_key k (steps B) = Some t"
  shows "k \<in> chg_stepKey ` set (changed (diff_steps (diff A B))) \<longleftrightarrow> step_differs f t"
proof -
  have "(k, t') \<in> set (stepsByKey (steps B)) \<longleftrightarrow> t' = t" for t'
    using assms(2) distinct_stepsByKey[of "steps B"] map_of_stepsByKey[of "steps B" k]
    by (metis map_of_eq_Some_iff option.inject)
  then show ?thesis
    using assms(1) by (simp add: diff_def Let_def changed_keys map_of_stepsByKey)
qed

subsection \<open>Comparing a snapshot with itself\<close>

text \<open>
  Claim C1. For every snapshot \<open>S\<close>, \<open>diff S S\<close> has empty added, removed and changed
  lists for steps and empty added and removed lists for transitions.
\<close>

theorem diff_self_empty: "diff S S = empty_diff"
  by (simp add: diff_def empty_diff_def Let_def added_changed_loop_self removed_loop_self
      edges_missing_in_self distinct_stepsByKey)

text \<open>The example snapshot with two steps and an edge, compared with itself.\<close>

theorem diff_self_empty_witness: "diff snapshot_B snapshot_B = empty_diff"
  by (rule diff_self_empty)

subsection \<open>Changed steps\<close>

text \<open>
  Claim C2. For every pair of snapshots \<open>A\<close>, \<open>B\<close> and every step key \<open>k\<close> present in
  both (\<open>f\<close> the step of \<open>A\<close> under \<open>k\<close>, \<open>t\<close> the step of \<open>B\<close> under \<open>k\<close>), the comparison
  lists \<open>k\<close> among the changed steps if and only if \<open>f\<close> and \<open>t\<close> differ in title, in
  description (absent and empty taken as equal) or in type. In particular, when \<open>t\<close> is
  \<open>f\<close> up to its position, \<open>k\<close> is not listed.
\<close>

theorem changed_iff_fields_differ:
  assumes "step_with_key k (steps A) = Some f" and "step_with_key k (steps B) = Some t"
  shows "(k \<in> chg_stepKey ` set (changed (diff_steps (diff A B))) \<longleftrightarrow>
            step_title f \<noteq> step_title t \<or>
            or_empty (step_description f) \<noteq> or_empty (step_description t) \<or>
            step_type f \<noteq> step_type t) \<and>
         (t\<lparr>posX := posX f, posY := posY f\<rparr> = f \<longrightarrow>
            k \<notin> chg_stepKey ` set (changed (diff_steps (diff A B))))"
proof -
  have iff: "k \<in> chg_stepKey ` set (changed (diff_steps (diff A B))) \<longleftrightarrow> step_differs f t"
    by (rule changed_iff[OF assms])
  have "\<not> step_differs f t" if "t\<lparr>posX := posX f, posY := posY f\<rparr> = f"
  proof -
    have "step_title (t\<lparr>posX := posX f, posY := posY f\<rparr>) = step_title f"
      "step_description (t\<lparr>posX := posX f, posY := posY f\<rparr>) = step_description f"
      "step_type (t\<lparr>posX := posX f, posY := posY f\<rparr>) = step_type f"
      using that by simp_all
    then show ?thesis by (simp add: step_differs_def)
  qed
  with iff show ?thesis by (auto simp: step_differs_def)
qed

text \<open>
  Step \<open>1\<close> of the example stands at another position in the second snapshot and is
  otherwise the same: it is not among the changed steps.
\<close>

theorem changed_iff_fields_differ_witness:
  "step_with_key (ascii ''1'') (steps snapshot_A) =
     Some (mk_step 1 1 (ascii ''1'') StepStart (ascii ''Start'')) \<and>
   step_with_key (ascii ''1'') (steps snapshot_B) =
     Some ((mk_step 2 2 (ascii ''1'') StepStart (ascii ''Start''))\<lparr>posX := 40, posY := 25\<rparr>) \<and>
   ascii ''1'' \<notin> chg_stepKey ` set (changed (diff_steps (diff snapshot_A snapshot_B)))"
proof -
  have a: "step_with_key (ascii ''1'') (steps snapshot_A) =
             Some (mk_step 1 1 (ascii ''1'') StepStart (ascii ''Start''))"
    by (simp add: step_with_key_def sample_defs ascii_def)
  have b: "step_with_key (ascii ''1'') (steps snapshot_B) =
             Some ((mk_step 2 2 (ascii ''1'') StepStart (ascii ''Start''))\<lparr>posX := 40, posY := 25\<rparr>)"
    by (simp add: step_with_key_def sample_defs ascii_def)
  from changed_iff_fields_differ[OF a b] a b show ?thesis by (simp add: mk_step_def)
qed

subsection \<open>Added against removed\<close>

text \<open>
  Claim C4. For every pair of snapshots \<open>A\<close> and \<open>B\<close>, the steps reported as added by
  \<open>diff A B\<close> are the steps reported as removed by \<open>diff B A\<close>: the two lists are equal,
  hence so are their sets.
\<close>

theorem added_eq_removed_swapped:
  "added (diff_steps (diff A B)) = removed (diff_steps (diff B A)) \<and>
   set (added (diff_steps (diff A B))) = set (removed (diff_steps (diff B A)))"
  by (simp add: diff_def Let_def fst_added_changed_loop)

text \<open>In the example, step \<open>2\<close> is the one step added, and the one step removed backwards.\<close>

theorem added_eq_removed_swapped_witness:
  "set (added (diff_steps (diff snapshot_A snapshot_B))) =
     set (removed (diff_steps (diff snapshot_B snapshot_A))) \<and>
   added (diff_steps (diff snapshot_A snapshot_B)) =
     [\<lparr>info_stepKey = ascii ''2'', info_title = ascii ''End'', info_description = None,
       info_type = StepEnd\<rparr>]"
  using added_eq_removed_swapped[of snapshot_A snapshot_B]
  by (simp add: sample_defs diff_eval)

subsection \<open>Transitions\<close>

lemma split_unique:
  "c \<notin> set a \<Longrightarrow> c \<notin> set a' \<Longrightarrow> a @ c # r = a' @ c # r' \<Longrightarrow> a = a' \<and> r = r'"
proof (induction a arbitrary: a')
  case Nil then show ?case by (cases a') auto
next
  case (Cons x a) then show ?case by (cases a') auto
qed























section \<open>Properties of the routes\<close>

subsection \<open>Well-formed databases\<close>












subsection \<open>Creating a spec\<close>



subsection \<open>Forking a version\<close>

lemma length_copies [simp]: "length (copies vid start ss) = length ss"
  by (induction ss arbitrary: start) simp_all




lemma copies_ids_ge: "c \<in> set (copies vid start ss) \<Longrightarrow> start \<le> step_id c"
  by (induction ss arbitrary: start) force+











lemma length_tcopies [simp]: "length (tcopies vid m start trs) = length trs"
  by (induction trs arbitrary: start) simp_all


















section \<open>Properties of the Excel import\<close>

subsection \<open>Columns\<close>














subsection \<open>The loops that build the graph\<close>

lemma match_at_SomeD: "match_at canon t = Some (len, ds) \<Longrightarrow> ds \<noteq> [] \<and> 0 < len"
  by (auto simp: match_at_def Let_def split: option.splits list.splits if_splits)

lemma exec_loop_target: "t \<in> set (exec_loop canon str pos rest) \<Longrightarrow> targetKey t \<noteq> []"
proof (induction canon str pos rest rule: exec_loop.induct)
  case (1 canon str pos)
  then show ?case by simp
next
  case (2 canon str pos c cs)
  show ?case
  proof (cases "match_at canon (c # cs)")
    case None
    with 2 show ?thesis by simp
  next
    case (Some p)
    obtain len ds where p: "p = (len, ds)" by (cases p)
    from Some p match_at_SomeD have "ds \<noteq> []" by blast
    with 2 Some p show ?thesis by auto
  qed
qed

lemma extract_target: "t \<in> set (extractTransitionsFromText canon str) \<Longrightarrow> targetKey t \<noteq> []"
  by (auto simp: extractTransitionsFromText_def exec_loop_target split: if_splits)

lemma keep_new_Nil [simp]: "keep_new es [] = es" "keep_new [] ms = first_per_pair ms"
  by (simp_all add: keep_new_def)

lemma keep_new_Cons:
  "keep_new es (m # ms) =
     (if e_pair m \<in> e_pair ` set es then keep_new es ms else keep_new (es @ [m]) ms)"
proof (cases "e_pair m \<in> e_pair ` set es")
  case True
  then show ?thesis by (simp add: keep_new_def)
next
  case False
  have "filter (\<lambda>x. e_pair x \<noteq> e_pair m) (filter (\<lambda>x. e_pair x \<notin> e_pair ` set es) ms) =
        filter (\<lambda>x. e_pair x \<notin> e_pair ` set (es @ [m])) ms"
    by (induction ms) auto
  with False show ?thesis by (simp add: keep_new_def)
qed

lemma keep_new_append: "keep_new es (ms1 @ ms2) = keep_new (keep_new es ms1) ms2"
  by (induction ms1 arbitrary: es) (simp_all add: keep_new_Cons)

lemma placeholders_snoc:
  "placeholders n (ts @ [t]) = placeholders n ts @ [placeholder t (n + length ts)]"
  by (simp add: placeholders_def enumerate_append_eq)

lemma length_placeholders [simp]: "length (placeholders n ts) = length ts"
  by (simp add: placeholders_def)

lemma outgoing_of_snoc:
  "outgoing_of k (es @ [e]) = (if e_from e = k then outgoing_of k es @ [(e_to e, e_label e)] else outgoing_of k es)"
  by (simp add: outgoing_of_def)

lemma list_ex_outgoing:
  "list_ex (\<lambda>p. fst p = t) (outgoing_of k es) \<longleftrightarrow> (k, t) \<in> e_pair ` set es"
  by (auto simp: outgoing_of_def list_ex_iff e_pair_def image_iff)

lemma transitions_loop_spec:
  assumes "\<forall>t\<in>set trs. targetKey t \<noteq> []" and "distinct ts" and "set ts \<inter> ids0 = {}"
  shows "\<exists>ts'. transitions_loop fk trs
             (nodes0 @ placeholders (length nodes0) ts, ids0 \<union> set ts, es, outgoing_of fk es) =
           (nodes0 @ placeholders (length nodes0) ts', ids0 \<union> set ts',
            keep_new es (map (text_edge fk) trs),
            outgoing_of fk (keep_new es (map (text_edge fk) trs))) \<and>
         distinct ts' \<and> set ts' \<inter> ids0 = {} \<and>
         set ts' = set ts \<union> (targetKey ` set trs - ids0)"
  using assms
proof (induction trs arbitrary: ts es)
  case Nil
  then show ?case by (intro exI[of _ ts]) simp
next
  case (Cons tr trs)
  let ?t = "targetKey tr"
  define ts1 where "ts1 = (if ?t \<in> ids0 \<union> set ts then ts else ts @ [?t])"
  define es1 where "es1 = (if (fk, ?t) \<in> e_pair ` set es then es else es @ [text_edge fk tr])"
  have ne: "?t \<noteq> []" using Cons.prems(1) by simp
  have d1: "distinct ts1" and i1: "set ts1 \<inter> ids0 = {}"
    using Cons.prems(2,3) by (auto simp: ts1_def)
  have s1: "set ts1 = set ts \<union> ({?t} - ids0)" by (auto simp: ts1_def)
  have nodes1: "(if ?t \<in> ids0 \<union> set ts then nodes0 @ placeholders (length nodes0) ts
                 else (nodes0 @ placeholders (length nodes0) ts) @
                      [placeholder ?t (length (nodes0 @ placeholders (length nodes0) ts))]) =
                nodes0 @ placeholders (length nodes0) ts1"
    by (simp add: ts1_def placeholders_snoc)
  have ids1: "insert ?t (ids0 \<union> set ts) = ids0 \<union> set ts1" by (auto simp: ts1_def)
  have arr1: "(if (fk, ?t) \<in> e_pair ` set es then outgoing_of fk es
               else outgoing_of fk es @ [(?t, tt_label tr)]) = outgoing_of fk es1"
    by (simp add: es1_def outgoing_of_snoc text_edge_def)
  have step: "transitions_loop fk (tr # trs)
             (nodes0 @ placeholders (length nodes0) ts, ids0 \<union> set ts, es, outgoing_of fk es) =
        transitions_loop fk trs
             (nodes0 @ placeholders (length nodes0) ts1, ids0 \<union> set ts1, es1, outgoing_of fk es1)"
  proof (cases "(fk, ?t) \<in> e_pair ` set es")
    case True
    then have "es1 = es" by (simp add: es1_def)
    with True show ?thesis
      using ne nodes1 ids1 by (simp add: Let_def list_ex_outgoing del: Un_insert_right)
  next
    case False
    then have e: "es1 = es @ [\<lparr>e_from = fk, e_to = ?t, e_label = tt_label tr\<rparr>]"
      by (simp add: es1_def text_edge_def)
    have o: "outgoing_of fk es1 = outgoing_of fk es @ [(?t, tt_label tr)]"
      using arr1 False by simp
    from False show ?thesis
      using ne nodes1 ids1 by (simp add: Let_def list_ex_outgoing e[symmetric] o[symmetric] del: Un_insert_right)
  qed
  have k: "keep_new es (map (text_edge fk) (tr # trs)) = keep_new es1 (map (text_edge fk) trs)"
    by (simp add: keep_new_Cons es1_def e_pair_def text_edge_def)
  from Cons.IH[OF _ d1 i1, of es1] Cons.prems(1) obtain ts' where
    r: "transitions_loop fk trs
             (nodes0 @ placeholders (length nodes0) ts1, ids0 \<union> set ts1, es1, outgoing_of fk es1) =
           (nodes0 @ placeholders (length nodes0) ts', ids0 \<union> set ts',
            keep_new es1 (map (text_edge fk) trs),
            outgoing_of fk (keep_new es1 (map (text_edge fk) trs)))"
    and p: "distinct ts'" "set ts' \<inter> ids0 = {}" "set ts' = set ts1 \<union> (targetKey ` set trs - ids0)"
    by auto
  have "set ts' = set ts \<union> (targetKey ` set (tr # trs) - ids0)"
    using p(3) s1 by auto
  with step r k p(1,2) show ?case by auto
qed


lemma all_matches_Cons:
  "all_matches canon (s # rest) =
     map (text_edge (ex_key s)) (extractTransitionsFromText canon (textForParsing s)) @
     all_matches canon rest"
  by (simp add: all_matches_def text_edge_def)

lemma all_matches_Nil [simp]: "all_matches canon [] = []"
  by (simp add: all_matches_def)

lemma set_first_per_pair: "set (first_per_pair xs) \<subseteq> set xs"
proof (induction xs rule: first_per_pair.induct)
  case 1
  then show ?case by simp
next
  case (2 e es)
  then show ?case by auto
qed

lemma outgoing_of_append: "outgoing_of k (xs @ ys) = outgoing_of k xs @ outgoing_of k ys"
  by (simp add: outgoing_of_def)

lemma outgoing_of_other:
  assumes "\<forall>e\<in>set ys. e_from e \<noteq> k"
  shows "outgoing_of k ys = []"
  using assms by (simp add: outgoing_of_def filter_empty_conv)

lemma outgoing_keep_new_other:
  assumes "k \<noteq> fk"
  shows "outgoing_of k (keep_new es (map (text_edge fk) trs)) = outgoing_of k es"
proof -
  have "\<forall>e\<in>set (first_per_pair (filter (\<lambda>m. e_pair m \<notin> e_pair ` set es) (map (text_edge fk) trs))).
          e_from e \<noteq> k"
    using set_first_per_pair assms by (fastforce simp: text_edge_def)
  then show ?thesis by (simp add: keep_new_def outgoing_of_append outgoing_of_other)
qed

lemma steps_loop_spec:
  assumes "distinct ts" and "set ts \<inter> ids0 = {}" and "\<forall>k. arr_of out k = outgoing_of k es"
  shows "\<exists>ts' out'. steps_loop canon sts
             (nodes0 @ placeholders (length nodes0) ts, ids0 \<union> set ts, es, out) =
           (nodes0 @ placeholders (length nodes0) ts', ids0 \<union> set ts',
            keep_new es (all_matches canon sts), out') \<and>
         distinct ts' \<and> set ts' \<inter> ids0 = {} \<and>
         set ts' = set ts \<union> (e_to ` set (all_matches canon sts) - ids0) \<and>
         (\<forall>k. arr_of out' k = outgoing_of k (keep_new es (all_matches canon sts))) \<and>
         (\<forall>k. out' k = None \<longleftrightarrow>
              out k = None \<and>
              (\<forall>s\<in>set sts. ex_key s = k \<longrightarrow>
                  extractTransitionsFromText canon (textForParsing s) = []))"
  using assms
proof (induction sts arbitrary: ts es out)
  case Nil
  then show ?case by (intro exI[of _ ts] exI[of _ out]) simp
next
  case (Cons s sts)
  let ?trs = "extractTransitionsFromText canon (textForParsing s)"
  show ?case
  proof (cases "?trs = []")
    case True
    from Cons.IH[OF Cons.prems] obtain ts' out' where
      r: "steps_loop canon sts (nodes0 @ placeholders (length nodes0) ts, ids0 \<union> set ts, es, out) =
           (nodes0 @ placeholders (length nodes0) ts', ids0 \<union> set ts',
            keep_new es (all_matches canon sts), out')"
      and p: "distinct ts'" "set ts' \<inter> ids0 = {}"
        "set ts' = set ts \<union> (e_to ` set (all_matches canon sts) - ids0)"
        "\<forall>k. arr_of out' k = outgoing_of k (keep_new es (all_matches canon sts))"
        "\<forall>k. out' k = None \<longleftrightarrow> out k = None \<and>
              (\<forall>s\<in>set sts. ex_key s = k \<longrightarrow> extractTransitionsFromText canon (textForParsing s) = [])"
      by blast
    have am: "all_matches canon (s # sts) = all_matches canon sts"
      using True by (simp add: all_matches_Cons)
    have st: "steps_loop canon (s # sts) (nodes0 @ placeholders (length nodes0) ts, ids0 \<union> set ts, es, out) =
          steps_loop canon sts (nodes0 @ placeholders (length nodes0) ts, ids0 \<union> set ts, es, out)"
      using True by simp
    have dom: "\<forall>k. out' k = None \<longleftrightarrow> out k = None \<and>
              (\<forall>s'\<in>set (s # sts). ex_key s' = k \<longrightarrow> extractTransitionsFromText canon (textForParsing s') = [])"
      using p(5) True by simp
    show ?thesis
      unfolding st am r using p(1-4) dom by blast
  next
    case False
    let ?fk = "ex_key s"
    let ?es1 = "keep_new es (map (text_edge ?fk) ?trs)"
    have tne: "\<forall>t\<in>set ?trs. targetKey t \<noteq> []" using extract_target by blast
    have arr: "(case out ?fk of None \<Rightarrow> [] | Some arr \<Rightarrow> arr) = outgoing_of ?fk es"
      using Cons.prems(3) by (simp add: arr_of_def)
    from transitions_loop_spec[OF tne Cons.prems(1,2), of ?fk nodes0 es] obtain ts1 where
      tl: "transitions_loop ?fk ?trs
             (nodes0 @ placeholders (length nodes0) ts, ids0 \<union> set ts, es, outgoing_of ?fk es) =
           (nodes0 @ placeholders (length nodes0) ts1, ids0 \<union> set ts1, ?es1, outgoing_of ?fk ?es1)"
      and q: "distinct ts1" "set ts1 \<inter> ids0 = {}" "set ts1 = set ts \<union> (targetKey ` set ?trs - ids0)"
      by blast
    let ?out1 = "out(?fk \<mapsto> outgoing_of ?fk ?es1)"
    have inv1: "\<forall>k. arr_of ?out1 k = outgoing_of k ?es1"
    proof
      fix k show "arr_of ?out1 k = outgoing_of k ?es1"
      proof (cases "k = ?fk")
        case True then show ?thesis by (simp add: arr_of_def)
      next
        case False
        then have "arr_of ?out1 k = arr_of out k" by (simp add: arr_of_def)
        with Cons.prems(3) outgoing_keep_new_other[OF False] show ?thesis by simp
      qed
    qed
    from Cons.IH[OF q(1,2) inv1] obtain ts' out' where
      r: "steps_loop canon sts (nodes0 @ placeholders (length nodes0) ts1, ids0 \<union> set ts1, ?es1, ?out1) =
           (nodes0 @ placeholders (length nodes0) ts', ids0 \<union> set ts',
            keep_new ?es1 (all_matches canon sts), out')"
      and p: "distinct ts'" "set ts' \<inter> ids0 = {}"
        "set ts' = set ts1 \<union> (e_to ` set (all_matches canon sts) - ids0)"
        "\<forall>k. arr_of out' k = outgoing_of k (keep_new ?es1 (all_matches canon sts))"
        "\<forall>k. out' k = None \<longleftrightarrow> ?out1 k = None \<and>
              (\<forall>s\<in>set sts. ex_key s = k \<longrightarrow> extractTransitionsFromText canon (textForParsing s) = [])"
      by blast
    have st: "steps_loop canon (s # sts) (nodes0 @ placeholders (length nodes0) ts, ids0 \<union> set ts, es, out) =
          steps_loop canon sts (nodes0 @ placeholders (length nodes0) ts1, ids0 \<union> set ts1, ?es1, ?out1)"
      using False by (simp add: Let_def arr tl)
    have am: "keep_new es (all_matches canon (s # sts)) = keep_new ?es1 (all_matches canon sts)"
      by (simp add: all_matches_Cons keep_new_append)
    have tg: "e_to ` set (all_matches canon (s # sts)) =
              targetKey ` set ?trs \<union> e_to ` set (all_matches canon sts)"
      by (simp add: all_matches_Cons image_Un image_image text_edge_def)
    have sets: "set ts' = set ts \<union> (e_to ` set (all_matches canon (s # sts)) - ids0)"
      unfolding tg using p(3) q(3) by blast
    have dom: "\<forall>k. out' k = None \<longleftrightarrow> out k = None \<and>
              (\<forall>s'\<in>set (s # sts). ex_key s' = k \<longrightarrow> extractTransitionsFromText canon (textForParsing s') = [])"
    proof
      fix k
      show "out' k = None \<longleftrightarrow> out k = None \<and>
              (\<forall>s'\<in>set (s # sts). ex_key s' = k \<longrightarrow> extractTransitionsFromText canon (textForParsing s') = [])"
        using p(5)[rule_format, of k] False by (cases "k = ?fk") auto
    qed
    show ?thesis
      unfolding st am r using p(1,2,4) sets dom by blast
  qed
qed


lemma chain_loop_zip: "chain_loop sts = map (\<lambda>(a, b). chain_edge a b) (zip sts (tl sts))"
  by (induction sts rule: chain_loop.induct) simp_all

lemma fallback_universal:
  "\<exists>F ks'. fallback_loop out sts (es, ks) = (es @ F, ks') \<and>
     (\<forall>f\<in>set F. \<exists>p\<in>set (zip sts (tl sts)). f = chain_edge (fst p) (snd p) \<and>
                    out (ex_key (fst p)) = None)"
proof (induction out sts "(es, ks)" arbitrary: es ks rule: fallback_loop.induct)
  case (1 out a b rest newEdges edgeKeySet)
  show ?case
  proof (cases "out (ex_key a) = None \<and> edge_key (ex_key a) (ex_key b) \<notin> edgeKeySet")
    case True
    from 1(1)[OF True] obtain F ks' where
      r: "fallback_loop out (b # rest)
            (newEdges @ [chain_edge a b], insert (edge_key (ex_key a) (ex_key b)) edgeKeySet) =
          ((newEdges @ [chain_edge a b]) @ F, ks')"
      and p: "\<forall>f\<in>set F. \<exists>p\<in>set (zip (b # rest) (tl (b # rest))).
                 f = chain_edge (fst p) (snd p) \<and> out (ex_key (fst p)) = None"
      by blast
    have "fallback_loop out (a # b # rest) (newEdges, edgeKeySet) = (newEdges @ (chain_edge a b # F), ks')"
      using True r by simp
    moreover have "\<forall>f\<in>set (chain_edge a b # F). \<exists>p\<in>set (zip (a # b # rest) (tl (a # b # rest))).
                 f = chain_edge (fst p) (snd p) \<and> out (ex_key (fst p)) = None"
      using p True by auto
    ultimately show ?thesis by blast
  next
    case False
    from 1(2)[OF False] obtain F ks' where
      r: "fallback_loop out (b # rest) (newEdges, edgeKeySet) = (newEdges @ F, ks')"
      and p: "\<forall>f\<in>set F. \<exists>p\<in>set (zip (b # rest) (tl (b # rest))).
                 f = chain_edge (fst p) (snd p) \<and> out (ex_key (fst p)) = None"
      by blast
    have "fallback_loop out (a # b # rest) (newEdges, edgeKeySet) = (newEdges @ F, ks')"
      using False r by auto
    moreover have "\<forall>f\<in>set F. \<exists>p\<in>set (zip (a # b # rest) (tl (a # b # rest))).
                 f = chain_edge (fst p) (snd p) \<and> out (ex_key (fst p)) = None"
      using p by auto
    ultimately show ?thesis by blast
  qed
qed simp_all

lemma edge_key_inj:
  assumes "gt_sign \<notin> set f" "gt_sign \<notin> set f'" "edge_key f t = edge_key f' t'"
  shows "f = f'"
proof -
  let ?m = "of_char CHR ''-'' :: code_unit"
  from assms(3) have e: "(f @ [?m]) @ gt_sign # t = (f' @ [?m]) @ gt_sign # t'"
    by (simp add: edge_key_def ascii_def gt_sign_def)
  have "gt_sign \<notin> set (f @ [?m])" "gt_sign \<notin> set (f' @ [?m])"
    using assms(1,2) by (simp_all add: gt_sign_def)
  from split_unique[OF this e] show ?thesis by simp
qed

lemma fallback_exact:
  assumes "distinct (map ex_key sts)" and "\<forall>s\<in>set sts. gt_sign \<notin> set (ex_key s)"
    and "\<forall>k\<in>ks. \<exists>f t. k = edge_key f t \<and> gt_sign \<notin> set f \<and>
                      (out f \<noteq> None \<or> f \<notin> ex_key ` set sts)"
  shows "fst (fallback_loop out sts (es, ks)) =
         es @ map (\<lambda>(a, b). chain_edge a b)
                (filter (\<lambda>(a, b). out (ex_key a) = None) (zip sts (tl sts)))"
  using assms
proof (induction out sts "(es, ks)" arbitrary: es ks rule: fallback_loop.induct)
  case (1 out a b rest newEdges edgeKeySet)
  have d: "distinct (map ex_key (b # rest))" and g: "\<forall>s\<in>set (b # rest). gt_sign \<notin> set (ex_key s)"
    using 1(3,4) by simp_all
  have anot: "ex_key a \<notin> ex_key ` set (b # rest)" using 1(3) by auto
  have ga: "gt_sign \<notin> set (ex_key a)" using 1(4) by simp
  show ?case
  proof (cases "out (ex_key a) = None")
    case True
    have notin: "edge_key (ex_key a) (ex_key b) \<notin> edgeKeySet"
    proof
      assume "edge_key (ex_key a) (ex_key b) \<in> edgeKeySet"
      with 1(5) obtain f t where k: "edge_key (ex_key a) (ex_key b) = edge_key f t"
        and gf: "gt_sign \<notin> set f" and c: "out f \<noteq> None \<or> f \<notin> ex_key ` set (a # b # rest)"
        by blast
      from edge_key_inj[OF ga gf k] have "f = ex_key a" by simp
      with c True show False by simp
    qed
    have inv: "\<forall>k\<in>insert (edge_key (ex_key a) (ex_key b)) edgeKeySet.
        \<exists>f t. k = edge_key f t \<and> gt_sign \<notin> set f \<and> (out f \<noteq> None \<or> f \<notin> ex_key ` set (b # rest))"
    proof
      fix k assume "k \<in> insert (edge_key (ex_key a) (ex_key b)) edgeKeySet"
      then show "\<exists>f t. k = edge_key f t \<and> gt_sign \<notin> set f \<and> (out f \<noteq> None \<or> f \<notin> ex_key ` set (b # rest))"
      proof
        assume "k = edge_key (ex_key a) (ex_key b)"
        with ga anot show ?thesis by blast
      next
        assume "k \<in> edgeKeySet"
        with 1(5) obtain f t where "k = edge_key f t" "gt_sign \<notin> set f"
          "out f \<noteq> None \<or> f \<notin> ex_key ` set (a # b # rest)" by blast
        then show ?thesis by auto
      qed
    qed
    have c: "out (ex_key a) = None \<and> edge_key (ex_key a) (ex_key b) \<notin> edgeKeySet"
      using True notin by simp
    from 1(1)[OF c d g inv] True notin show ?thesis by simp
  next
    case False
    have inv: "\<forall>k\<in>edgeKeySet.
        \<exists>f t. k = edge_key f t \<and> gt_sign \<notin> set f \<and> (out f \<noteq> None \<or> f \<notin> ex_key ` set (b # rest))"
    proof
      fix k assume "k \<in> edgeKeySet"
      with 1(5) obtain f t where "k = edge_key f t" "gt_sign \<notin> set f"
        "out f \<noteq> None \<or> f \<notin> ex_key ` set (a # b # rest)" by blast
      then show "\<exists>f t. k = edge_key f t \<and> gt_sign \<notin> set f \<and> (out f \<noteq> None \<or> f \<notin> ex_key ` set (b # rest))"
        by auto
    qed
    have c: "\<not> (out (ex_key a) = None \<and> edge_key (ex_key a) (ex_key b) \<notin> edgeKeySet)"
      using False by simp
    from 1(2)[OF c d g inv] False show ?thesis by auto
  qed
qed simp_all

lemma node_id_stepNodes: "map node_id (stepNodes lower sts) = map ex_key sts"
proof -
  have e: "map (\<lambda>p. ex_key (snd p)) (enumerate n sts) = map ex_key sts" for n
    by (induction sts arbitrary: n) simp_all
  have "map node_id (stepNodes lower sts) = map (\<lambda>p. ex_key (snd p)) (enumerate 0 sts)"
    by (simp add: stepNodes_def step_node_def case_prod_beta)
  also have "\<dots> = map ex_key sts" by (rule e)
  finally show ?thesis .
qed

lemma length_stepNodes [simp]: "length (stepNodes lower sts) = length sts"
  by (simp add: stepNodes_def)

lemma first_per_pair_Nil_iff: "first_per_pair xs = [] \<longleftrightarrow> xs = []"
  by (cases xs) simp_all

lemma all_matches_mem:
  "e \<in> set (all_matches canon sts) \<longleftrightarrow>
     (\<exists>s\<in>set sts. \<exists>t\<in>set (extractTransitionsFromText canon (textForParsing s)).
        e = text_edge (ex_key s) t)"
  by (auto simp: all_matches_def text_edge_def)

lemma importGraph_shape:
  obtains ts out' where
    "importGraph canon lower sts =
       (stepNodes lower sts @ placeholders (length sts) ts,
        if all_matches canon sts = [] then chain_loop sts
        else fst (fallback_loop out' sts
               (map (\<lambda>(idx, e). explicit_edge idx e)
                  (enumerate 0 (first_per_pair (all_matches canon sts))),
                set (map (\<lambda>e. edge_key (e_from e) (e_to e))
                       (first_per_pair (all_matches canon sts))))))"
    and "distinct ts"
    and "set ts = e_to ` set (all_matches canon sts) - ex_key ` set sts"
    and "\<And>k. out' k = None \<longleftrightarrow>
            (\<forall>s\<in>set sts. ex_key s = k \<longrightarrow>
               extractTransitionsFromText canon (textForParsing s) = [])"
proof -
  let ?n0 = "stepNodes lower sts"
  let ?ids0 = "set (map node_id ?n0)"
  have ids0: "?ids0 = ex_key ` set sts" by (simp add: node_id_stepNodes)
  have inv0: "\<forall>k. arr_of Map.empty k = outgoing_of k []"
    by (simp add: arr_of_def outgoing_of_def)
  from steps_loop_spec[of "[]" ?ids0 Map.empty "[]" canon sts ?n0, OF _ _ inv0]
  obtain ts out' where
    r: "steps_loop canon sts (?n0, ?ids0, [], Map.empty) =
          (?n0 @ placeholders (length sts) ts, ?ids0 \<union> set ts,
           first_per_pair (all_matches canon sts), out')"
    and p: "distinct ts" "set ts = e_to ` set (all_matches canon sts) - ?ids0"
      "\<forall>k. out' k = None \<longleftrightarrow>
            (\<forall>s\<in>set sts. ex_key s = k \<longrightarrow>
               extractTransitionsFromText canon (textForParsing s) = [])"
    by (auto simp: placeholders_def)
  have "importGraph canon lower sts =
       (stepNodes lower sts @ placeholders (length sts) ts,
        if all_matches canon sts = [] then chain_loop sts
        else fst (fallback_loop out' sts
               (map (\<lambda>(idx, e). explicit_edge idx e)
                  (enumerate 0 (first_per_pair (all_matches canon sts))),
                set (map (\<lambda>e. edge_key (e_from e) (e_to e))
                       (first_per_pair (all_matches canon sts))))))"
    unfolding importGraph_def Let_def r by (simp add: first_per_pair_Nil_iff)
  then show ?thesis using that p ids0 by simp
qed

lemma find_filter: "(\<And>y. P y \<Longrightarrow> Q y) \<Longrightarrow> find P (filter Q ys) = find P ys"
  by (induction ys) auto

lemma first_per_pair_distinct: "distinct (map e_pair (first_per_pair xs))"
proof (induction xs rule: first_per_pair.induct)
  case 1
  then show ?case by simp
next
  case (2 e es)
  have "e_pair e \<notin> e_pair ` set (first_per_pair (filter (\<lambda>x. e_pair x \<noteq> e_pair e) es))"
    using set_first_per_pair[of "filter (\<lambda>x. e_pair x \<noteq> e_pair e) es"] by auto
  with 2 show ?case by simp
qed

lemma first_per_pair_pairs: "e_pair ` set (first_per_pair xs) = e_pair ` set xs"
proof (induction xs rule: first_per_pair.induct)
  case 1
  then show ?case by simp
next
  case (2 e es)
  have "e_pair ` set (filter (\<lambda>x. e_pair x \<noteq> e_pair e) es) = e_pair ` set es - {e_pair e}"
    by auto
  with 2 show ?case by auto
qed

lemma first_per_pair_first:
  "e \<in> set (first_per_pair xs) \<Longrightarrow> find (\<lambda>m. e_pair m = e_pair e) xs = Some e"
proof (induction xs rule: first_per_pair.induct)
  case 1
  then show ?case by simp
next
  case (2 x es)
  show ?case
  proof (cases "e = x")
    case True
    then show ?thesis by simp
  next
    case False
    with 2(2) have mem: "e \<in> set (first_per_pair (filter (\<lambda>y. e_pair y \<noteq> e_pair x) es))" by simp
    with set_first_per_pair have "e \<in> set (filter (\<lambda>y. e_pair y \<noteq> e_pair x) es)" by blast
    then have ne: "e_pair e \<noteq> e_pair x" by simp
    have "find (\<lambda>m. e_pair m = e_pair e) (filter (\<lambda>y. e_pair y \<noteq> e_pair x) es) = Some e"
      by (rule 2(1)[OF mem])
    moreover have "find (\<lambda>m. e_pair m = e_pair e) (filter (\<lambda>y. e_pair y \<noteq> e_pair x) es) =
                   find (\<lambda>m. e_pair m = e_pair e) es"
      by (rule find_filter) (use ne in simp)
    ultimately show ?thesis using ne by simp
  qed
qed

lemma all_matches_Nil_iff:
  "all_matches canon sts = [] \<longleftrightarrow>
     (\<forall>s\<in>set sts. extractTransitionsFromText canon (textForParsing s) = [])"
  by (simp add: all_matches_def)

lemma e_from_all_matches:
  "k \<in> e_from ` set (all_matches canon sts) \<longleftrightarrow>
     (\<exists>s\<in>set sts. ex_key s = k \<and> extractTransitionsFromText canon (textForParsing s) \<noteq> [])"
proof
  assume "k \<in> e_from ` set (all_matches canon sts)"
  then obtain e where "e \<in> set (all_matches canon sts)" "k = e_from e" by blast
  then obtain s t where "s \<in> set sts" "t \<in> set (extractTransitionsFromText canon (textForParsing s))"
    "e = text_edge (ex_key s) t" unfolding all_matches_mem by blast
  with \<open>k = e_from e\<close> show "\<exists>s\<in>set sts. ex_key s = k \<and> extractTransitionsFromText canon (textForParsing s) \<noteq> []"
    by (auto simp: text_edge_def)
next
  assume "\<exists>s\<in>set sts. ex_key s = k \<and> extractTransitionsFromText canon (textForParsing s) \<noteq> []"
  then obtain s where s: "s \<in> set sts" "ex_key s = k"
    "extractTransitionsFromText canon (textForParsing s) \<noteq> []" by blast
  then obtain t where "t \<in> set (extractTransitionsFromText canon (textForParsing s))"
    by (cases "extractTransitionsFromText canon (textForParsing s)") auto
  with s(1) have "text_edge (ex_key s) t \<in> set (all_matches canon sts)"
    unfolding all_matches_mem by blast
  then have "e_from (text_edge (ex_key s) t) \<in> e_from ` set (all_matches canon sts)" by (rule imageI)
  then show "k \<in> e_from ` set (all_matches canon sts)" using s(2) by (simp add: text_edge_def)
qed

text \<open>The edges of the import in the three cases of the edge policy.\<close>

lemma importGraph_edges:
  fixes canon lower sts
  defines "M \<equiv> all_matches canon sts"
  defines "X \<equiv> map (\<lambda>(idx, e). explicit_edge idx e) (enumerate 0 (first_per_pair M))"
  shows "M = [] \<Longrightarrow> snd (importGraph canon lower sts) = chain_loop sts"
    and "M \<noteq> [] \<Longrightarrow> \<exists>F. snd (importGraph canon lower sts) = X @ F \<and>
           (\<forall>f\<in>set F. \<exists>p\<in>set (zip sts (tl sts)). f = chain_edge (fst p) (snd p) \<and>
               extractTransitionsFromText canon (textForParsing (fst p)) = [] \<and>
               ex_key (fst p) \<notin> e_from ` set M)"
    and "M \<noteq> [] \<Longrightarrow> distinct (map ex_key sts) \<Longrightarrow> \<forall>s\<in>set sts. gt_sign \<notin> set (ex_key s) \<Longrightarrow>
           snd (importGraph canon lower sts) =
             X @ map (\<lambda>(a, b). chain_edge a b)
                   (filter (\<lambda>(a, b). extractTransitionsFromText canon (textForParsing a) = [])
                      (zip sts (tl sts)))"
proof -
  obtain ts out' where
    g: "importGraph canon lower sts =
       (stepNodes lower sts @ placeholders (length sts) ts,
        if M = [] then chain_loop sts
        else fst (fallback_loop out' sts
               (X, set (map (\<lambda>e. edge_key (e_from e) (e_to e)) (first_per_pair M)))))"
    and dom: "\<And>k. out' k = None \<longleftrightarrow>
            (\<forall>s\<in>set sts. ex_key s = k \<longrightarrow>
               extractTransitionsFromText canon (textForParsing s) = [])"
    unfolding M_def X_def by (rule importGraph_shape[of canon lower sts]) blast
  have dom': "out' k = None \<longleftrightarrow> k \<notin> e_from ` set M" for k
    unfolding dom M_def e_from_all_matches by blast
  show "M = [] \<Longrightarrow> snd (importGraph canon lower sts) = chain_loop sts"
    by (simp add: g)
  show "\<exists>F. snd (importGraph canon lower sts) = X @ F \<and>
           (\<forall>f\<in>set F. \<exists>p\<in>set (zip sts (tl sts)). f = chain_edge (fst p) (snd p) \<and>
               extractTransitionsFromText canon (textForParsing (fst p)) = [] \<and>
               ex_key (fst p) \<notin> e_from ` set M)" if ne: "M \<noteq> []"
  proof -
    from fallback_universal[of out' sts X "set (map (\<lambda>e. edge_key (e_from e) (e_to e)) (first_per_pair M))"]
    obtain F ks' where
      r: "fallback_loop out' sts (X, set (map (\<lambda>e. edge_key (e_from e) (e_to e)) (first_per_pair M))) =
            (X @ F, ks')"
      and p: "\<forall>f\<in>set F. \<exists>p\<in>set (zip sts (tl sts)). f = chain_edge (fst p) (snd p) \<and>
                    out' (ex_key (fst p)) = None"
      by blast
    have "\<exists>p\<in>set (zip sts (tl sts)). f = chain_edge (fst p) (snd p) \<and>
               extractTransitionsFromText canon (textForParsing (fst p)) = [] \<and>
               ex_key (fst p) \<notin> e_from ` set M" if "f \<in> set F" for f
    proof -
      from p that obtain q where q: "q \<in> set (zip sts (tl sts))" "f = chain_edge (fst q) (snd q)"
        "out' (ex_key (fst q)) = None" by blast
      have "fst q \<in> set sts" using q(1) by (metis prod.collapse set_zip_leftD)
      with q(3) have "extractTransitionsFromText canon (textForParsing (fst q)) = []"
        unfolding dom by blast
      with q dom' show ?thesis by blast
    qed
    then show ?thesis using ne r by (auto simp: g)
  qed
  show "snd (importGraph canon lower sts) =
             X @ map (\<lambda>(a, b). chain_edge a b)
                   (filter (\<lambda>(a, b). extractTransitionsFromText canon (textForParsing a) = [])
                      (zip sts (tl sts)))"
    if ne: "M \<noteq> []" and d: "distinct (map ex_key sts)" and gt: "\<forall>s\<in>set sts. gt_sign \<notin> set (ex_key s)"
  proof -
    have inv: "\<forall>k\<in>set (map (\<lambda>e. edge_key (e_from e) (e_to e)) (first_per_pair M)).
             \<exists>f t. k = edge_key f t \<and> gt_sign \<notin> set f \<and> (out' f \<noteq> None \<or> f \<notin> ex_key ` set sts)"
    proof
      fix k assume "k \<in> set (map (\<lambda>e. edge_key (e_from e) (e_to e)) (first_per_pair M))"
      then obtain e where e: "e \<in> set (first_per_pair M)" "k = edge_key (e_from e) (e_to e)" by auto
      with set_first_per_pair have "e \<in> set M" by blast
      then have "e_from e \<in> e_from ` set M" by (rule imageI)
      then obtain s where s: "s \<in> set sts" "ex_key s = e_from e"
        unfolding M_def e_from_all_matches by blast
      have "out' (e_from e) \<noteq> None" using \<open>e_from e \<in> e_from ` set M\<close> dom' by blast
      moreover have "gt_sign \<notin> set (e_from e)" using gt s by auto
      ultimately show "\<exists>f t. k = edge_key f t \<and> gt_sign \<notin> set f \<and> (out' f \<noteq> None \<or> f \<notin> ex_key ` set sts)"
        using e(2) by blast
    qed
    have same: "filter (\<lambda>(a, b). out' (ex_key a) = None) (zip sts (tl sts)) =
                filter (\<lambda>(a, b). extractTransitionsFromText canon (textForParsing a) = []) (zip sts (tl sts))"
    proof (rule filter_cong[OF refl])
      fix q assume "q \<in> set (zip sts (tl sts))"
      then have m: "fst q \<in> set sts" by (metis prod.collapse set_zip_leftD)
      have "out' (ex_key (fst q)) = None \<longleftrightarrow> extractTransitionsFromText canon (textForParsing (fst q)) = []"
      proof
        assume "out' (ex_key (fst q)) = None"
        with m show "extractTransitionsFromText canon (textForParsing (fst q)) = []" unfolding dom by blast
      next
        assume e: "extractTransitionsFromText canon (textForParsing (fst q)) = []"
        have "s = fst q" if "s \<in> set sts" "ex_key s = ex_key (fst q)" for s
          using d m that by (meson distinct_map inj_onD)
        with e show "out' (ex_key (fst q)) = None" unfolding dom by blast
      qed
      then show "(case q of (a, b) \<Rightarrow> out' (ex_key a) = None) =
                 (case q of (a, b) \<Rightarrow> extractTransitionsFromText canon (textForParsing a) = [])"
        by (simp add: case_prod_beta)
    qed
    show ?thesis
      using ne fallback_exact[OF d gt inv, of X] by (simp add: g same)
  qed
qed

lemmas graph_eval = importGraph_def stepNodes_def step_node_def textForParsing_def
  extractTransitionsFromText_def match_at_def context_label_def is_tail_def trim_def
  is_ws_def is_digit_def perehod_k_shag_def goto_step_def mk_excel_def
  plain_steps_def branch_steps_def branch_text_def repeated_key_steps_def basic_canonicalize_def upper_unit_def
  basic_toLowerCase_def lower_unit_def proverka_def proveryaetsya_def placeholder_def shag_def
  explicit_edge_def chain_edge_def edge_key_def edge_triple_def ascii_def Let_def digits10.simps


subsection \<open>The edge policy\<close>

text \<open>
  Claim C7, amended. For every sorted step list: if no transition was found in the
  text of any step, the edges are exactly the chain from each step to the next.
  Otherwise the edges are the extracted transitions (the first of each pair of source
  and target), followed by fallback edges; every fallback edge joins a step to its
  successor, and the step has no extracted transition and its key is the source of no
  extracted transition. When moreover the step keys are pairwise distinct and contain
  no \<open>>\<close>, there is a fallback edge for exactly the steps, other than the last, that
  have no extracted transition.
\<close>

theorem edge_synthesis_policy:
  "((\<forall>s\<in>set sts. extractTransitionsFromText canon (textForParsing s) = []) \<longrightarrow>
      snd (importGraph canon lower sts) = map (\<lambda>(a, b). chain_edge a b) (zip sts (tl sts))) \<and>
   (\<not> (\<forall>s\<in>set sts. extractTransitionsFromText canon (textForParsing s) = []) \<longrightarrow>
      (\<exists>F. snd (importGraph canon lower sts) =
              map (\<lambda>(idx, e). explicit_edge idx e)
                (enumerate 0 (first_per_pair (all_matches canon sts))) @ F \<and>
           (\<forall>f\<in>set F. \<exists>p\<in>set (zip sts (tl sts)). f = chain_edge (fst p) (snd p) \<and>
               extractTransitionsFromText canon (textForParsing (fst p)) = [] \<and>
               ex_key (fst p) \<notin> e_from ` set (all_matches canon sts))) \<and>
      (distinct (map ex_key sts) \<and> (\<forall>s\<in>set sts. gt_sign \<notin> set (ex_key s)) \<longrightarrow>
         snd (importGraph canon lower sts) =
           map (\<lambda>(idx, e). explicit_edge idx e)
             (enumerate 0 (first_per_pair (all_matches canon sts))) @
           map (\<lambda>(a, b). chain_edge a b)
             (filter (\<lambda>(a, b). extractTransitionsFromText canon (textForParsing a) = [])
                (zip sts (tl sts)))))"
  unfolding all_matches_Nil_iff[symmetric]
  using importGraph_edges(1)[of canon sts lower] importGraph_edges(2)[of canon sts lower]
    importGraph_edges(3)[of canon sts lower]
  by (simp add: chain_loop_zip)

text \<open>
  \<open>branch_steps\<close>: step 1 has the explicit edge to 99 and no fallback, step 2 falls
  back to 3. \<open>plain_steps\<close>: the chain.
\<close>

theorem edge_synthesis_policy_witness:
  "distinct (map ex_key branch_steps) \<and>
   list_all (\<lambda>s. gt_sign \<notin> set (ex_key s)) branch_steps \<and>
   \<not> list_all (\<lambda>s. extractTransitionsFromText basic_canonicalize (textForParsing s) = [])
        branch_steps \<and>
   map edge_triple (snd (importGraph basic_canonicalize basic_toLowerCase branch_steps)) =
     [(ascii ''1'', ascii ''99'', Some (ascii ''ok'')), (ascii ''2'', ascii ''3'', None)] \<and>
   list_all (\<lambda>s. extractTransitionsFromText basic_canonicalize (textForParsing s) = [])
     plain_steps \<and>
   map edge_triple (snd (importGraph basic_canonicalize basic_toLowerCase plain_steps)) =
     [(ascii ''1'', ascii ''2'', None), (ascii ''2'', ascii ''3'', None)]"
proof -
  have a: "distinct (map ex_key branch_steps)" by (simp add: graph_eval)
  have b: "\<forall>s\<in>set branch_steps. gt_sign \<notin> set (ex_key s)" by (simp add: graph_eval gt_sign_def)
  have c: "\<not> (\<forall>s\<in>set branch_steps.
        extractTransitionsFromText basic_canonicalize (textForParsing s) = [])"
    by (simp add: graph_eval)
  have d: "\<forall>s\<in>set plain_steps. extractTransitionsFromText basic_canonicalize (textForParsing s) = []"
    by (simp add: graph_eval)
  have m: "first_per_pair (all_matches basic_canonicalize branch_steps) =
     [\<lparr>e_from = ascii ''1'', e_to = ascii ''99'', e_label = ascii ''ok''\<rparr>]"
    by (simp add: all_matches_def e_pair_def graph_eval)
  have f: "filter (\<lambda>(a, b). extractTransitionsFromText basic_canonicalize (textForParsing a) = [])
             (zip branch_steps (tl branch_steps)) =
           [(branch_steps ! 1, branch_steps ! 2)]"
    by (simp add: graph_eval)
  from edge_synthesis_policy[of branch_steps basic_canonicalize basic_toLowerCase] a b c
  have 1: "snd (importGraph basic_canonicalize basic_toLowerCase branch_steps) =
           map (\<lambda>(idx, e). explicit_edge idx e)
             (enumerate 0 (first_per_pair (all_matches basic_canonicalize branch_steps))) @
           map (\<lambda>(a, b). chain_edge a b)
             (filter (\<lambda>(a, b). extractTransitionsFromText basic_canonicalize (textForParsing a) = [])
                (zip branch_steps (tl branch_steps)))"
    by blast
  from edge_synthesis_policy[of plain_steps basic_canonicalize basic_toLowerCase] d
  have 2: "snd (importGraph basic_canonicalize basic_toLowerCase plain_steps) =
           map (\<lambda>(a, b). chain_edge a b) (zip plain_steps (tl plain_steps))"
    by blast
  have 3: "map edge_triple (snd (importGraph basic_canonicalize basic_toLowerCase branch_steps)) =
     [(ascii ''1'', ascii ''99'', Some (ascii ''ok'')), (ascii ''2'', ascii ''3'', None)]"
    unfolding 1 m f by (simp add: graph_eval)
  have 4: "map edge_triple (snd (importGraph basic_canonicalize basic_toLowerCase plain_steps)) =
     [(ascii ''1'', ascii ''2'', None), (ascii ''2'', ascii ''3'', None)]"
    unfolding 2 by (simp add: graph_eval)
  from a b c d 3 4 show ?thesis by (simp only: list_all_iff) blast
qed

text \<open>
  Claim C7 as stated, for every step list, fails when a step key repeats: the second
  row numbered 1 has no transition of its own and is followed by row 2, yet there is no
  edge from 1 to 2, because \<open>outgoingByFrom\<close> is kept per key and the first row
  numbered 1 has a transition.
\<close>

theorem fallback_repeated_key_counterexample:
  "extractTransitionsFromText basic_canonicalize (textForParsing (repeated_key_steps ! 1)) = [] \<and>
   map edge_triple (snd (importGraph basic_canonicalize basic_toLowerCase repeated_key_steps)) =
     [(ascii ''1'', ascii ''3'', None), (ascii ''2'', ascii ''3'', None)]"
  by (simp add: graph_eval)

lemma node_id_placeholders: "map node_id (placeholders n ts) = ts"
  by (induction ts arbitrary: n) (simp_all add: placeholders_def placeholder_def)

subsection \<open>Placeholder nodes and repeated matches\<close>

text \<open>
  Claim C8. For every sorted step list, the nodes are the nodes of the steps followed
  by one placeholder for each target of a match that is not a step key, each once: a
  node with the target as id, type action, title \<open>Shag N\<close> and empty description. The
  edges begin with one edge for each pair of source and target among the matches,
  carrying the label of the first match of that pair; the remaining edges have no
  label. Every edge starts and ends at a node.
\<close>

theorem placeholder_nodes_and_first_label:
  "\<exists>ts F.
     importGraph canon lower sts =
       (stepNodes lower sts @
        map (\<lambda>(i, t). \<lparr>node_id = t, node_x = 400, node_y = 80 + int i * 30,
                        node_title = shag @ t, node_description = [], realType = StepAction\<rparr>)
          (enumerate (length sts) ts),
        map (\<lambda>(idx, e). explicit_edge idx e)
          (enumerate 0 (first_per_pair (all_matches canon sts))) @ F) \<and>
     distinct ts \<and>
     set ts = e_to ` set (all_matches canon sts) - ex_key ` set sts \<and>
     (\<forall>f\<in>set F. edge_label f = None \<and> source f \<in> ex_key ` set sts \<and> target f \<in> ex_key ` set sts) \<and>
     distinct (map e_pair (first_per_pair (all_matches canon sts))) \<and>
     e_pair ` set (first_per_pair (all_matches canon sts)) = e_pair ` set (all_matches canon sts) \<and>
     (\<forall>e\<in>set (first_per_pair (all_matches canon sts)).
        find (\<lambda>m. e_pair m = e_pair e) (all_matches canon sts) = Some e) \<and>
     (\<forall>e\<in>set (snd (importGraph canon lower sts)).
        source e \<in> node_id ` set (fst (importGraph canon lower sts)) \<and>
        target e \<in> node_id ` set (fst (importGraph canon lower sts)))"
proof -
  let ?M = "all_matches canon sts"
  let ?X = "map (\<lambda>(idx, e). explicit_edge idx e) (enumerate 0 (first_per_pair ?M))"
  obtain ts out' where
    g: "importGraph canon lower sts =
       (stepNodes lower sts @ placeholders (length sts) ts,
        if ?M = [] then chain_loop sts
        else fst (fallback_loop out' sts
               (?X, set (map (\<lambda>e. edge_key (e_from e) (e_to e)) (first_per_pair ?M)))))"
    and ts: "distinct ts" "set ts = e_to ` set ?M - ex_key ` set sts"
    by (rule importGraph_shape[of canon lower sts]) blast
  have chainF: "edge_label f = None \<and> source f \<in> ex_key ` set sts \<and> target f \<in> ex_key ` set sts"
    if "p \<in> set (zip sts (tl sts))" "f = chain_edge (fst p) (snd p)" for f p
  proof -
    have "fst p \<in> set sts" using that(1) by (metis prod.collapse set_zip_leftD)
    moreover have "snd p \<in> set (tl sts)" using that(1) by (metis prod.collapse set_zip_rightD)
    then have "snd p \<in> set sts" by (metis list.sel(2) list.set_sel(2))
    ultimately show ?thesis using that(2) by (simp add: chain_edge_def)
  qed
  obtain F where e: "snd (importGraph canon lower sts) = ?X @ F"
    and F: "\<forall>f\<in>set F. \<exists>p\<in>set (zip sts (tl sts)). f = chain_edge (fst p) (snd p)"
  proof (cases "?M = []")
    case True
    have "snd (importGraph canon lower sts) = ?X @ chain_loop sts"
      using True by (simp add: g)
    moreover have "\<forall>f\<in>set (chain_loop sts). \<exists>p\<in>set (zip sts (tl sts)). f = chain_edge (fst p) (snd p)"
      unfolding chain_loop_zip by (auto simp: case_prod_beta)
    ultimately show ?thesis using that by blast
  next
    case False
    from importGraph_edges(2)[OF False, of lower] show ?thesis using that by blast
  qed
  have Fp: "\<forall>f\<in>set F. edge_label f = None \<and> source f \<in> ex_key ` set sts \<and> target f \<in> ex_key ` set sts"
    using F chainF by blast
  have nodes: "fst (importGraph canon lower sts) = stepNodes lower sts @ placeholders (length sts) ts"
    by (simp add: g)
  have ids: "node_id ` set (fst (importGraph canon lower sts)) = ex_key ` set sts \<union> set ts"
  proof -
    have "node_id ` set (fst (importGraph canon lower sts)) =
          set (map node_id (stepNodes lower sts)) \<union> set (map node_id (placeholders (length sts) ts))"
      unfolding nodes by (simp add: image_Un)
    then show ?thesis unfolding node_id_stepNodes node_id_placeholders by simp
  qed
  have Xp: "source x \<in> ex_key ` set sts \<union> set ts \<and> target x \<in> ex_key ` set sts \<union> set ts"
    if "x \<in> set ?X" for x
  proof -
    from that obtain i m where "(i, m) \<in> set (enumerate 0 (first_per_pair ?M))" "x = explicit_edge i m"
      by auto
    then have "m \<in> set (first_per_pair ?M)" by (auto simp: in_set_enumerate_eq)
    with set_first_per_pair have m: "m \<in> set ?M" by blast
    then have "e_from m \<in> e_from ` set ?M" by (rule imageI)
    then obtain s0 where "s0 \<in> set sts" "ex_key s0 = e_from m"
      unfolding e_from_all_matches by blast
    then have 1: "e_from m \<in> ex_key ` set sts" by (metis imageI)
    have "e_to m \<in> e_to ` set ?M" using m by (rule imageI)
    then have 2: "e_to m \<in> ex_key ` set sts \<union> set ts" unfolding ts(2) by blast
    have sx: "source x = e_from m" "target x = e_to m"
      using \<open>x = explicit_edge i m\<close> by (simp_all add: explicit_edge_def)
    show ?thesis unfolding sx using 1 2 by simp
  qed
  have valid: "\<forall>x\<in>set (snd (importGraph canon lower sts)).
        source x \<in> node_id ` set (fst (importGraph canon lower sts)) \<and>
        target x \<in> node_id ` set (fst (importGraph canon lower sts))"
  proof
    fix x assume "x \<in> set (snd (importGraph canon lower sts))"
    then have "x \<in> set ?X \<or> x \<in> set F" unfolding e by simp
    then have "source x \<in> ex_key ` set sts \<union> set ts \<and> target x \<in> ex_key ` set sts \<union> set ts"
    proof
      assume "x \<in> set ?X" then show ?thesis by (rule Xp)
    next
      assume "x \<in> set F"
      with Fp have "source x \<in> ex_key ` set sts" "target x \<in> ex_key ` set sts" by blast+
      then show ?thesis by simp
    qed
    then show "source x \<in> node_id ` set (fst (importGraph canon lower sts)) \<and>
        target x \<in> node_id ` set (fst (importGraph canon lower sts))"
      unfolding ids .
  qed
  have ph: "placeholders (length sts) ts =
        map (\<lambda>(i, t). \<lparr>node_id = t, node_x = 400, node_y = 80 + int i * 30,
                        node_title = shag @ t, node_description = [], realType = StepAction\<rparr>)
          (enumerate (length sts) ts)"
    by (simp add: placeholders_def placeholder_def)
  have "importGraph canon lower sts =
          (fst (importGraph canon lower sts), snd (importGraph canon lower sts))"
    by simp
  then have shape: "importGraph canon lower sts =
       (stepNodes lower sts @
        map (\<lambda>(i, t). \<lparr>node_id = t, node_x = 400, node_y = 80 + int i * 30,
                        node_title = shag @ t, node_description = [], realType = StepAction\<rparr>)
          (enumerate (length sts) ts), ?X @ F)"
    unfolding nodes e ph .
  have first: "\<forall>e\<in>set (first_per_pair ?M). find (\<lambda>m. e_pair m = e_pair e) ?M = Some e"
    using first_per_pair_first by blast
  show ?thesis
    apply (rule exI[of _ ts])
    apply (rule exI[of _ F])
    apply (intro conjI)
           apply (rule shape)
          apply (rule ts(1))
         apply (rule ts(2))
        apply (rule Fp)
       apply (rule first_per_pair_distinct)
      apply (rule first_per_pair_pairs)
     apply (rule first)
    apply (rule valid)
    done
qed

text \<open>
  \<open>branch_steps\<close>: the text of step 1 names step 99 twice; there is one placeholder
  99 and one edge to it, labelled \<open>ok\<close> from the first match.
\<close>

theorem placeholder_nodes_and_first_label_witness:
  "importGraph basic_canonicalize basic_toLowerCase branch_steps =
     ([\<lparr>node_id = ascii ''1'', node_x = 100, node_y = 80, node_title = ascii ''Start'',
        node_description = branch_text, realType = StepStart\<rparr>,
       \<lparr>node_id = ascii ''2'', node_x = 160, node_y = 110, node_title = ascii ''Work'',
        node_description = [], realType = StepAction\<rparr>,
       \<lparr>node_id = ascii ''3'', node_x = 220, node_y = 140, node_title = ascii ''End'',
        node_description = [], realType = StepEnd\<rparr>,
       \<lparr>node_id = ascii ''99'', node_x = 400, node_y = 170, node_title = shag @ ascii ''99'',
        node_description = [], realType = StepAction\<rparr>],
      [\<lparr>edge_id = ascii ''1->99-0'', source = ascii ''1'', target = ascii ''99'',
        edge_label = Some (ascii ''ok'')\<rparr>,
       \<lparr>edge_id = ascii ''2->3'', source = ascii ''2'', target = ascii ''3'',
        edge_label = None\<rparr>]) \<and>
   all_matches basic_canonicalize branch_steps =
     [\<lparr>e_from = ascii ''1'', e_to = ascii ''99'', e_label = ascii ''ok''\<rparr>,
      \<lparr>e_from = ascii ''1'', e_to = ascii ''99'',
       e_label = ascii ''ok - '' @ goto_step (ascii ''99'') @ ascii ''; no''\<rparr>] \<and>
   list_all
     (\<lambda>e. source e \<in> node_id ` set (fst (importGraph basic_canonicalize basic_toLowerCase branch_steps)) \<and>
          target e \<in> node_id ` set (fst (importGraph basic_canonicalize basic_toLowerCase branch_steps)))
     (snd (importGraph basic_canonicalize basic_toLowerCase branch_steps))"
proof -
  have g: "importGraph basic_canonicalize basic_toLowerCase branch_steps =
     ([\<lparr>node_id = ascii ''1'', node_x = 100, node_y = 80, node_title = ascii ''Start'',
        node_description = branch_text, realType = StepStart\<rparr>,
       \<lparr>node_id = ascii ''2'', node_x = 160, node_y = 110, node_title = ascii ''Work'',
        node_description = [], realType = StepAction\<rparr>,
       \<lparr>node_id = ascii ''3'', node_x = 220, node_y = 140, node_title = ascii ''End'',
        node_description = [], realType = StepEnd\<rparr>,
       \<lparr>node_id = ascii ''99'', node_x = 400, node_y = 170, node_title = shag @ ascii ''99'',
        node_description = [], realType = StepAction\<rparr>],
      [\<lparr>edge_id = ascii ''1->99-0'', source = ascii ''1'', target = ascii ''99'',
        edge_label = Some (ascii ''ok'')\<rparr>,
       \<lparr>edge_id = ascii ''2->3'', source = ascii ''2'', target = ascii ''3'',
        edge_label = None\<rparr>])"
    by (simp add: graph_eval branch_text_def)
  have m: "all_matches basic_canonicalize branch_steps =
     [\<lparr>e_from = ascii ''1'', e_to = ascii ''99'', e_label = ascii ''ok''\<rparr>,
      \<lparr>e_from = ascii ''1'', e_to = ascii ''99'',
       e_label = ascii ''ok - '' @ goto_step (ascii ''99'') @ ascii ''; no''\<rparr>]"
    by (simp add: all_matches_def graph_eval)
  from placeholder_nodes_and_first_label[of basic_canonicalize basic_toLowerCase branch_steps]
  have "\<forall>e\<in>set (snd (importGraph basic_canonicalize basic_toLowerCase branch_steps)).
        source e \<in> node_id ` set (fst (importGraph basic_canonicalize basic_toLowerCase branch_steps)) \<and>
        target e \<in> node_id ` set (fst (importGraph basic_canonicalize basic_toLowerCase branch_steps))"
    by blast
  then have "list_all
     (\<lambda>e. source e \<in> node_id ` set (fst (importGraph basic_canonicalize basic_toLowerCase branch_steps)) \<and>
          target e \<in> node_id ` set (fst (importGraph basic_canonicalize basic_toLowerCase branch_steps)))
     (snd (importGraph basic_canonicalize basic_toLowerCase branch_steps))"
    by (simp only: list_all_iff)
  with g m show ?thesis by blast
qed

end
